theory Spec2Isabelle
  imports Complex_Main "HOL-Library.AList" "HOL-Library.Char_ord" "HOL-Library.List_Lexorder"
    "HOL-Library.Log_Nat"
begin

section \<open>The object store\<close>

text \<open>
  The engine is written with mutable objects: \<open>State\<close> and \<open>Edge\<close> instances are
  shared between the sets and maps of an automaton and carry their own fields. The model
  keeps every \<open>State\<close> and every \<open>Edge\<close> ever constructed in a store, in the order of
  construction; a reference to an object is its index. Methods take the store and return
  it updated. An automaton is a record of references; a method that mutates \<open>this\<close>
  returns the new record.

  Exceptions are values: a method that can throw returns \<open>error + result\<close>. A
  \<open>TypeError\<close> is what the engine raises when it reads a property of \<open>undefined\<close>.
\<close>

datatype error = TypeError | Error string

text \<open>
  Regular expressions label the edges of a generalized automaton. The cached
  \<open>equivalentAutomaton\<close> of a node is not part of the model: nothing below reads it.
  \<open>RWord []\<close> is the empty word.
\<close>

datatype RegularExpression =
    REmpty
  | RWord string
  | RStar RegularExpression
  | RSum RegularExpression RegularExpression
  | RConcat RegularExpression RegularExpression

text \<open>
  \<open>State\<close> (state.js). \<open>tag\<close> holds the \<open>stateSet\<close> that the subset construction
  stores there (the empty list for the default \<open>{}\<close>); \<open>marked\<close> is the property the
  depth-first searches set (\<open>undefined\<close> reads as false).
\<close>

record state =
  name :: string
  start :: bool
  final :: bool
  tag :: "nat list"
  edgesOut :: "nat list"
  edgesIn :: "nat list"
  marked :: bool

text \<open>\<open>Edge\<close> (edge.js); \<open>re\<close> is set on the edges of a generalized automaton only.\<close>

record edge =
  source :: nat
  sink :: nat
  symbol :: char
  re :: "RegularExpression option"

record world =
  sts :: "state list"
  eds :: "edge list"

definition emptyWorld :: world where
  "emptyWorld = \<lparr>sts = [], eds = []\<rparr>"

text \<open>
  \<open>Automaton\<close>: \<open>states\<close> and \<open>edges\<close> are JavaScript sets, \<open>stateNameMap\<close> and
  \<open>deltaMap\<close> are JavaScript maps. Both keep insertion order, so sets are lists without
  repetition and maps are association lists.
\<close>

record automaton =
  aname :: string
  alphabet :: string
  states :: "nat list"
  stateNameMap :: "(string \<times> nat) list"
  edges :: "nat list"
  deltaMap :: "(char \<times> (nat \<times> nat list) list) list"

text \<open>\<open>Set.add\<close> and \<open>Set.delete\<close> on a list without repetition.\<close>

definition set_add :: "'a \<Rightarrow> 'a list \<Rightarrow> 'a list" where
  "set_add x xs = (if x \<in> set xs then xs else xs @ [x])"

definition set_delete :: "'a \<Rightarrow> 'a list \<Rightarrow> 'a list" where
  "set_delete x xs = removeAll x xs"

text \<open>Updating one field of a stored object.\<close>

definition updState :: "world \<Rightarrow> nat \<Rightarrow> (state \<Rightarrow> state) \<Rightarrow> world" where
  "updState w s f = w\<lparr>sts := (sts w)[s := f (sts w ! s)]\<rparr>"

definition updEdge :: "world \<Rightarrow> nat \<Rightarrow> (edge \<Rightarrow> edge) \<Rightarrow> world" where
  "updEdge w e f = w\<lparr>eds := (eds w)[e := f (eds w ! e)]\<rparr>"

section \<open>Automaton primitives\<close>

text \<open>The constructor: one empty inner map per alphabet symbol.\<close>

definition newAutomaton :: "string \<Rightarrow> string \<Rightarrow> automaton" where
  "newAutomaton nm symbols =
     \<lparr>aname = nm, alphabet = symbols, states = [], stateNameMap = [], edges = [],
      deltaMap = fold (\<lambda>s m. AList.update s [] m) symbols []\<rparr>"

text \<open>The \<open>State\<close> constructor rewrites the empty name.\<close>

definition newState :: "string \<Rightarrow> bool \<Rightarrow> bool \<Rightarrow> nat list \<Rightarrow> state" where
  "newState nm st fi tg =
     \<lparr>name = (if nm = [] then ''empty'' else nm), start = st, final = fi, tag = tg,
      edgesOut = [], edgesIn = [], marked = False\<rparr>"

definition getStateByName :: "automaton \<Rightarrow> string \<Rightarrow> nat option" where
  "getStateByName a nm = map_of (stateNameMap a) nm"

text \<open>
  The loop of \<open>addState\<close> under \<open>forceNew\<close>:
  \<^verbatim>\<open>while (a.getStateByName(name) !== undefined) { name += 'x' }\<close>
\<close>

function uniqueName :: "(string \<times> nat) list \<Rightarrow> string \<Rightarrow> string" where
  "uniqueName m nm = (if map_of m nm \<noteq> None then uniqueName m (nm @ ''x'') else nm)"
  by pat_completeness auto

definition longestKey :: "(string \<times> nat) list \<Rightarrow> nat" where
  "longestKey m = fold (\<lambda>kv n. max (length (fst kv)) n) m 0"

lemma fold_max_ge: "n \<le> fold (\<lambda>kv n. max (length (fst kv)) n) m (n::nat)"
  by (induction m arbitrary: n) (auto intro: order_trans [OF max.cobounded2])

lemma fold_max_key: "(k, v) \<in> set m \<Longrightarrow> length k \<le> fold (\<lambda>kv n. max (length (fst kv)) n) m n"
proof (induction m arbitrary: n)
  case Nil
  then show ?case by simp
next
  case (Cons kv m)
  show ?case
  proof (cases "(k, v) = kv")
    case True
    have "length k \<le> max (length (fst kv)) n" using True by auto
    also have "\<dots> \<le> fold (\<lambda>kv n. max (length (fst kv)) n) m (max (length (fst kv)) n)"
      by (rule fold_max_ge)
    finally show ?thesis by simp
  next
    case False
    then have "(k, v) \<in> set m" using Cons.prems by auto
    then show ?thesis using Cons.IH by simp
  qed
qed

lemma longestKey_bound: "map_of m k = Some v \<Longrightarrow> length k \<le> longestKey m"
  unfolding longestKey_def by (rule fold_max_key [OF map_of_SomeD])

termination uniqueName
proof (relation "measure (\<lambda>(m, nm). Suc (longestKey m) - length nm)")
  show "wf (measure (\<lambda>(m, nm). Suc (longestKey m) - length nm))" by simp
next
  fix m :: "(string \<times> nat) list" and nm :: string
  assume "map_of m nm \<noteq> None"
  then obtain v where "map_of m nm = Some v" by auto
  then have "length nm \<le> longestKey m" by (rule longestKey_bound)
  then show "((m, nm @ ''x''), (m, nm)) \<in> measure (\<lambda>(m, nm). Suc (longestKey m) - length nm)"
    by simp
qed

declare uniqueName.simps [simp del]

text \<open>
  \<open>addState(name, start, final, tag, forceNew)\<close>. The new state is registered under the
  name that was passed in, whatever name the \<open>State\<close> constructor gave it.
\<close>

definition forcedName :: "automaton \<Rightarrow> string \<Rightarrow> bool \<Rightarrow> string" where
  "forcedName a nm forceNew = (if forceNew then uniqueName (stateNameMap a) nm else nm)"

definition addState ::
  "world \<Rightarrow> automaton \<Rightarrow> string \<Rightarrow> bool \<Rightarrow> bool \<Rightarrow> nat list \<Rightarrow> bool \<Rightarrow> world \<times> automaton \<times> nat"
where
  "addState w a nm st fi tg forceNew =
     (let nm' = forcedName a nm forceNew in
      case getStateByName a nm' of
        Some s \<Rightarrow> (w, a, s)
      | None \<Rightarrow>
          (let s = length (sts w) in
           (w\<lparr>sts := sts w @ [newState nm' st fi tg]\<rparr>,
            a\<lparr>states := set_add s (states a),
              stateNameMap := AList.update nm' s (stateNameMap a)\<rparr>,
            s)))"

text \<open>
  A \<open>forEach\<close> whose body can throw: the loop stops at the first exception.
\<close>

fun foldE :: "('a \<Rightarrow> 's \<Rightarrow> error + 's) \<Rightarrow> 'a list \<Rightarrow> 's \<Rightarrow> error + 's" where
  "foldE f [] s = Inr s"
| "foldE f (x # xs) s = (case f x s of Inl e \<Rightarrow> Inl e | Inr s' \<Rightarrow> foldE f xs s')"

text \<open>
  Methods that take a state accept its name or the \<open>State\<close> object; \<open>getState\<close>
  resolves a name through \<open>stateNameMap\<close>.
\<close>

datatype sref = ByName string | ByState nat

definition getState :: "automaton \<Rightarrow> sref \<Rightarrow> nat option" where
  "getState a r = (case r of ByName nm \<Rightarrow> map_of (stateNameMap a) nm | ByState s \<Rightarrow> Some s)"

text \<open>
  \<open>getEdge(from, to, symbol)\<close> scans \<open>from.edgesOut\<close>; an unknown \<open>from\<close> is a
  \<open>TypeError\<close>, an unknown \<open>to\<close> matches no edge.
\<close>

definition getEdge :: "world \<Rightarrow> automaton \<Rightarrow> sref \<Rightarrow> sref \<Rightarrow> char \<Rightarrow> error + nat option" where
  "getEdge w a from to symb =
     (case getState a from of
        None \<Rightarrow> Inl TypeError
      | Some f \<Rightarrow>
          Inr (case getState a to of
                 None \<Rightarrow> None
               | Some t \<Rightarrow>
                   find (\<lambda>e. symbol (eds w ! e) = symb \<and> sink (eds w ! e) = t)
                     (edgesOut (sts w ! f))))"

text \<open>
  \<open>addEdge(from, to, symbol)\<close>: the existing edge, or a new \<open>Edge\<close> entered into
  \<open>edges\<close>, \<open>deltaMap\<close>, \<open>from.edgesOut\<close> and \<open>to.edgesIn\<close>. A symbol outside the
  alphabet has no inner map (\<open>deltaMap.get(symbol)\<close> is \<open>undefined\<close>), and an unknown
  \<open>to\<close> has no \<open>addEdgeIn\<close>: both are a \<open>TypeError\<close>.
\<close>

definition addEdge ::
  "world \<Rightarrow> automaton \<Rightarrow> sref \<Rightarrow> sref \<Rightarrow> char \<Rightarrow> error + (world \<times> automaton \<times> nat)"
where
  "addEdge w a from to symb =
     (case getEdge w a from to symb of
        Inl err \<Rightarrow> Inl err
      | Inr (Some e) \<Rightarrow> Inr (w, a, e)
      | Inr None \<Rightarrow>
          (case getState a from of
             None \<Rightarrow> Inl TypeError
           | Some f \<Rightarrow>
               (case map_of (deltaMap a) symb of
                  None \<Rightarrow> Inl TypeError
                | Some dm \<Rightarrow>
                    (case getState a to of
                       None \<Rightarrow> Inl TypeError
                     | Some t \<Rightarrow>
                         (let e = length (eds w);
                              w1 = w\<lparr>eds := eds w @ [\<lparr>source = f, sink = t, symbol = symb, re = None\<rparr>]\<rparr>;
                              targets = (case map_of dm f of None \<Rightarrow> [] | Some ts \<Rightarrow> ts);
                              a1 = a\<lparr>edges := set_add e (edges a),
                                     deltaMap := AList.update symb
                                       (AList.update f (set_add t targets) dm) (deltaMap a)\<rparr>;
                              w2 = updState w1 f (\<lambda>s. s\<lparr>edgesOut := set_add e (edgesOut s)\<rparr>);
                              w3 = updState w2 t (\<lambda>s. s\<lparr>edgesIn := set_add e (edgesIn s)\<rparr>)
                          in Inr (w3, a1, e))))))"

text \<open>\<open>deleteEdge(e)\<close>, for an \<open>Edge\<close> object \<open>e\<close>.\<close>

definition deleteEdge :: "world \<Rightarrow> automaton \<Rightarrow> nat \<Rightarrow> error + (world \<times> automaton)" where
  "deleteEdge w a e =
     (let ed = eds w ! e in
      case map_of (deltaMap a) (symbol ed) of
        None \<Rightarrow> Inl TypeError
      | Some dm \<Rightarrow>
          (case map_of dm (source ed) of
             None \<Rightarrow> Inl TypeError
           | Some ts \<Rightarrow>
               (let a1 = a\<lparr>edges := set_delete e (edges a),
                          deltaMap := AList.update (symbol ed)
                            (AList.update (source ed) (set_delete (sink ed) ts) dm) (deltaMap a)\<rparr>;
                    w1 = updState w (source ed) (\<lambda>s. s\<lparr>edgesOut := set_delete e (edgesOut s)\<rparr>);
                    w2 = updState w1 (sink ed) (\<lambda>s. s\<lparr>edgesIn := set_delete e (edgesIn s)\<rparr>)
                in Inr (w2, a1))))"

definition deleteEdgeFts ::
  "world \<Rightarrow> automaton \<Rightarrow> sref \<Rightarrow> sref \<Rightarrow> char \<Rightarrow> error + (world \<times> automaton)"
where
  "deleteEdgeFts w a from to symb =
     (case getEdge w a from to symb of
        Inl err \<Rightarrow> Inl err
      | Inr None \<Rightarrow> Inl TypeError
      | Inr (Some e) \<Rightarrow> deleteEdge w a e)"

text \<open>
  \<open>deleteState(state)\<close>: the incoming edges, then the outgoing edges that are left, then
  the entry of \<open>stateNameMap\<close> under the state's name and the state itself.
\<close>

definition deleteState :: "world \<Rightarrow> automaton \<Rightarrow> sref \<Rightarrow> error + (world \<times> automaton)" where
  "deleteState w a r =
     (case getState a r of
        None \<Rightarrow> Inl TypeError
      | Some s \<Rightarrow>
          (case foldE (\<lambda>e (w, a). deleteEdge w a e) (edgesIn (sts w ! s)) (w, a) of
             Inl err \<Rightarrow> Inl err
           | Inr (w1, a1) \<Rightarrow>
               (case foldE (\<lambda>e (w, a). deleteEdge w a e) (edgesOut (sts w1 ! s)) (w1, a1) of
                  Inl err \<Rightarrow> Inl err
                | Inr (w2, a2) \<Rightarrow>
                    Inr (w2, a2\<lparr>stateNameMap := AList.delete (name (sts w2 ! s)) (stateNameMap a2),
                                 states := set_delete s (states a2)\<rparr>))))"

text \<open>\<open>renameState(s, newName)\<close>, for a \<open>State\<close> object \<open>s\<close>.\<close>

definition renameState :: "world \<Rightarrow> automaton \<Rightarrow> nat \<Rightarrow> string \<Rightarrow> world \<times> automaton" where
  "renameState w a s newName =
     (updState w s (\<lambda>st. st\<lparr>name := newName\<rparr>),
      a\<lparr>stateNameMap := AList.update newName s (AList.delete (name (sts w ! s)) (stateNameMap a))\<rparr>)"

text \<open>\<open>delta(state, symbol)\<close> with a symbol given, \<open>deltaStar\<close> and \<open>accepts\<close>.\<close>

definition delta :: "automaton \<Rightarrow> nat \<Rightarrow> char \<Rightarrow> nat list" where
  "delta a s symb =
     (case map_of (deltaMap a) symb of
        None \<Rightarrow> []
      | Some dm \<Rightarrow> (case map_of dm s of None \<Rightarrow> [] | Some ts \<Rightarrow> fold set_add ts []))"

definition getStartStates :: "world \<Rightarrow> automaton \<Rightarrow> nat list" where
  "getStartStates w a = filter (\<lambda>s. start (sts w ! s)) (states a)"

definition getFinalStates :: "world \<Rightarrow> automaton \<Rightarrow> nat list" where
  "getFinalStates w a = filter (\<lambda>s. final (sts w ! s)) (states a)"

definition isDeterministic :: "world \<Rightarrow> automaton \<Rightarrow> bool" where
  "isDeterministic w a =
     (if length (getStartStates w a) \<noteq> 1 then False
      else list_all (\<lambda>deltaMapSymbol. \<not> list_ex (\<lambda>s. length s > 1) (map snd deltaMapSymbol))
             (map snd (deltaMap a)))"

definition isEmpty :: "automaton \<Rightarrow> bool" where
  "isEmpty a = (length (states a) = 0)"

fun deltaStar :: "automaton \<Rightarrow> nat list \<Rightarrow> string \<Rightarrow> nat list" where
  "deltaStar a currentStates [] = currentStates"
| "deltaStar a currentStates (symb # word) =
     (let nextStates = fold (\<lambda>from acc. fold set_add (delta a from symb) acc) currentStates []
      in if length nextStates = 0 then nextStates else deltaStar a nextStates word)"

definition accepts :: "world \<Rightarrow> automaton \<Rightarrow> string \<Rightarrow> bool" where
  "accepts w a word =
     (if isEmpty a then False
      else list_ex (\<lambda>s. final (sts w ! s)) (deltaStar a (getStartStates w a) word))"

section \<open>Names of sets, numerals\<close>

text \<open>
  \<open>Set.prototype.name\<close> (extendSet.js) on a set of states: the names, sorted as
  strings, joined with the separator (a comma by default).
\<close>

fun join :: "string \<Rightarrow> string list \<Rightarrow> string" where
  "join sep [] = []"
| "join sep [x] = x"
| "join sep (x # y # ys) = x @ sep @ join sep (y # ys)"

definition setName :: "world \<Rightarrow> nat list \<Rightarrow> string" where
  "setName w S = join '','' (sort (map (\<lambda>s. name (sts w ! s)) S))"

text \<open>\<open>String(i)\<close> for a non-negative integer: its decimal numeral.\<close>

function String_of :: "nat \<Rightarrow> string" where
  "String_of n =
     (if n < 10 then [char_of (of_char CHR ''0'' + n)]
      else String_of (n div 10) @ [char_of (of_char CHR ''0'' + n mod 10)])"
  by pat_completeness auto
termination
  by (relation "measure (\<lambda>n. n)") auto

declare String_of.simps [simp del]

section \<open>Copies: reverse, reduce, union\<close>

text \<open>
  \<open>reverse()\<close> builds a new automaton from the names of the states: every state is
  added under its name with \<open>start\<close> and \<open>final\<close> swapped, every edge is added between
  the states found under the names of its sink and its source.
\<close>

definition copyState ::
  "(state \<Rightarrow> string) \<Rightarrow> (state \<Rightarrow> bool) \<Rightarrow> (state \<Rightarrow> bool) \<Rightarrow> (state \<Rightarrow> nat list) \<Rightarrow> nat
     \<Rightarrow> world \<times> automaton \<Rightarrow> world \<times> automaton"
where
  "copyState nm st fi tg s wa =
     (case wa of (w, ar) \<Rightarrow>
        (case addState w ar (nm (sts w ! s)) (st (sts w ! s)) (fi (sts w ! s)) (tg (sts w ! s)) False of
           (w', ar', _) \<Rightarrow> (w', ar')))"

definition copyEdge ::
  "(world \<Rightarrow> edge \<Rightarrow> string) \<Rightarrow> (world \<Rightarrow> edge \<Rightarrow> string) \<Rightarrow> nat
     \<Rightarrow> world \<times> automaton \<Rightarrow> error + (world \<times> automaton)"
where
  "copyEdge fromName toName e wa =
     (case wa of (w, ar) \<Rightarrow>
        (case addEdge w ar (ByName (fromName w (eds w ! e))) (ByName (toName w (eds w ! e)))
                (symbol (eds w ! e)) of
           Inl err \<Rightarrow> Inl err
         | Inr (w', ar', _) \<Rightarrow> Inr (w', ar')))"

definition sourceName :: "world \<Rightarrow> edge \<Rightarrow> string" where
  "sourceName w ed = name (sts w ! source ed)"

definition sinkName :: "world \<Rightarrow> edge \<Rightarrow> string" where
  "sinkName w ed = name (sts w ! sink ed)"

definition reverse :: "world \<Rightarrow> automaton \<Rightarrow> error + (world \<times> automaton)" where
  "reverse w a =
     (let ar = newAutomaton (''reverse of '' @ aname a) (alphabet a);
          wa1 = fold (copyState name final start tag) (states a) (w, ar)
      in foldE (copyEdge sinkName sourceName) (edges a) wa1)"

text \<open>
  \<open>Graph.dfs(nodes, sources)\<close> (graph.js):
  \<^verbatim>\<open>
  for (const s of sources) {
    s.marked = true
    s.edgesOut.forEach(e => { if (!e.sink.marked) { dfs(nodes, new Set([e.sink])) } })
  }\<close>
  It never clears a mark. The recursion is written with its call stack made explicit:
  \<open>dfsEdges\<close> holds the edges that the enclosing \<open>forEach\<close> loops have still to look
  at, innermost first. A reference to an object that was never constructed does not
  exist in the engine; the model stops with an error there.
\<close>

definition unmarkedCount :: "world \<Rightarrow> nat" where
  "unmarkedCount w = length (filter (\<lambda>s. \<not> marked s) (sts w))"

definition mark :: "world \<Rightarrow> nat \<Rightarrow> world" where
  "mark w s = updState w s (\<lambda>st. st\<lparr>marked := True\<rparr>)"

lemma filter_update_less:
  assumes "i < length xs" and "P (xs ! i)" and "\<not> P y"
  shows "length (filter P (xs[i := y])) < length (filter P xs)"
  using assms
proof (induction xs arbitrary: i)
  case Nil
  then show ?case by simp
next
  case (Cons x xs)
  show ?case
  proof (cases i)
    case 0
    then show ?thesis using Cons.prems by simp
  next
    case (Suc j)
    then have "length (filter P (xs[j := y])) < length (filter P xs)"
      using Cons.IH [of j] Cons.prems by simp
    then show ?thesis using Suc by simp
  qed
qed

lemma unmarkedCount_mark:
  "s < length (sts w) \<Longrightarrow> \<not> marked (sts w ! s) \<Longrightarrow> unmarkedCount (mark w s) < unmarkedCount w"
  unfolding unmarkedCount_def mark_def updState_def
  by (simp add: filter_update_less)

function dfsEdges :: "world \<Rightarrow> nat list \<Rightarrow> error + world" where
  "dfsEdges w [] = Inr w"
| "dfsEdges w (e # pending) =
     (if e < length (eds w) \<and> sink (eds w ! e) < length (sts w) then
        (if marked (sts w ! sink (eds w ! e)) then dfsEdges w pending
         else dfsEdges (mark w (sink (eds w ! e)))
                (edgesOut (sts w ! sink (eds w ! e)) @ pending))
      else Inl TypeError)"
  by pat_completeness auto
termination
  by (relation "measures [\<lambda>(w, pending). unmarkedCount w, \<lambda>(w, pending). length pending]")
     (auto simp: unmarkedCount_mark)

definition dfs :: "world \<Rightarrow> nat list \<Rightarrow> error + world" where
  "dfs w sources = foldE (\<lambda>s w. dfsEdges (mark w s) (edgesOut (sts w ! s))) sources w"

text \<open>
  \<open>reduce()\<close>: a state is kept when it is marked after the search from the start states
  and the state of the reversed copy found under its name is marked after the search
  there; an edge is kept when both its ends are.
\<close>

definition markedByName :: "world \<Rightarrow> automaton \<Rightarrow> string \<Rightarrow> error + bool" where
  "markedByName w aRev nm =
     (case getStateByName aRev nm of None \<Rightarrow> Inl TypeError | Some r \<Rightarrow> Inr (marked (sts w ! r)))"

definition reduceState :: "automaton \<Rightarrow> nat \<Rightarrow> world \<times> automaton \<Rightarrow> error + (world \<times> automaton)" where
  "reduceState aRev s wa =
     (case wa of (w, ar) \<Rightarrow>
        if marked (sts w ! s) then
          (case markedByName w aRev (name (sts w ! s)) of
             Inl err \<Rightarrow> Inl err
           | Inr m \<Rightarrow> Inr (if m then copyState name start final tag s (w, ar) else (w, ar)))
        else Inr (w, ar))"

definition reduceEdge :: "automaton \<Rightarrow> nat \<Rightarrow> world \<times> automaton \<Rightarrow> error + (world \<times> automaton)" where
  "reduceEdge aRev e wa =
     (case wa of (w, ar) \<Rightarrow>
        if marked (sts w ! source (eds w ! e)) \<and> marked (sts w ! sink (eds w ! e)) then
          (case markedByName w aRev (sourceName w (eds w ! e)) of
             Inl err \<Rightarrow> Inl err
           | Inr m1 \<Rightarrow>
               if m1 then
                 (case markedByName w aRev (sinkName w (eds w ! e)) of
                    Inl err \<Rightarrow> Inl err
                  | Inr m2 \<Rightarrow> if m2 then copyEdge sourceName sinkName e (w, ar) else Inr (w, ar))
               else Inr (w, ar))
        else Inr (w, ar))"

definition reduce :: "world \<Rightarrow> automaton \<Rightarrow> error + (world \<times> automaton)" where
  "reduce w a =
     (let ar = newAutomaton (''reduced of '' @ aname a) (alphabet a) in
      if length (states a) = 0 \<or> length (getStartStates w a) = 0 \<or> length (getFinalStates w a) = 0
      then Inr (w, ar)
      else
        (case reverse w a of
           Inl err \<Rightarrow> Inl err
         | Inr (w1, aRev) \<Rightarrow>
             (case dfs w1 (getStartStates w1 a) of
                Inl err \<Rightarrow> Inl err
              | Inr w2 \<Rightarrow>
                  (case dfs w2 (getStartStates w2 aRev) of
                     Inl err \<Rightarrow> Inl err
                   | Inr w3 \<Rightarrow>
                       (case foldE (reduceState aRev) (states a) (w3, ar) of
                          Inl err \<Rightarrow> Inl err
                        | Inr wa4 \<Rightarrow> foldE (reduceEdge aRev) (edges a) wa4)))))"

text \<open>
  \<open>union(a2)\<close>: the states and the edges of both automata under the names
  \<open>a.name + ':' + s.name\<close>, in an automaton over the default alphabet \<open>ab\<close>.
\<close>

definition prefixed :: "automaton \<Rightarrow> string \<Rightarrow> string" where
  "prefixed a nm = aname a @ '':'' @ nm"

definition union :: "world \<Rightarrow> automaton \<Rightarrow> automaton \<Rightarrow> error + (world \<times> automaton)" where
  "union w a1 a2 =
     (let u = newAutomaton (''union of '' @ aname a1 @ '' and '' @ aname a2) ''ab'';
          wu1 = fold (copyState (\<lambda>s. prefixed a1 (name s)) start final (\<lambda>s. [])) (states a1) (w, u);
          wu2 = fold (copyState (\<lambda>s. prefixed a2 (name s)) start final (\<lambda>s. [])) (states a2) wu1
      in case foldE (copyEdge (\<lambda>w e. prefixed a1 (sourceName w e)) (\<lambda>w e. prefixed a1 (sinkName w e)))
                (edges a1) wu2 of
           Inl err \<Rightarrow> Inl err
         | Inr wu3 \<Rightarrow>
             foldE (copyEdge (\<lambda>w e. prefixed a2 (sourceName w e)) (\<lambda>w e. prefixed a2 (sinkName w e)))
               (edges a2) wu3)"

section \<open>Determinization\<close>

text \<open>
  \<open>renameStates()\<close> without a permutation: the \<open>i\<close>-th state of the set is renamed to
  \<open>String(i)\<close>.
\<close>

definition renameStates :: "world \<Rightarrow> automaton \<Rightarrow> world \<times> automaton" where
  "renameStates w a =
     fold (\<lambda>(s, i) (w, a). renameState w a s (String_of i)) (zip (states a) [0 ..< length (states a)]) (w, a)"

text \<open>
  One alphabet symbol in the body of the subset construction's loop:
  \<^verbatim>\<open>
  const nextStatesSet = nfa.deltaStar(currentState.tag.stateSet, s)
  nextState = dfa.getStateByName(nextStatesSet.name())
  if (nextState === undefined) {
    nextState = dfa.addState(nextStatesSet.name(), false,
      [...nextStatesSet].some(s => s.final), { stateSet: nextStatesSet })
    todoStates.add(nextState)
  }
  dfa.addEdge(currentState, nextState, s)\<close>
\<close>

definition detSymbol ::
  "automaton \<Rightarrow> nat \<Rightarrow> char \<Rightarrow> world \<times> automaton \<times> nat list \<Rightarrow> error + (world \<times> automaton \<times> nat list)"
where
  "detSymbol nfa currentState s st =
     (case st of (w, dfa, todoStates) \<Rightarrow>
        (let nextStatesSet = deltaStar nfa (tag (sts w ! currentState)) [s] in
         case getStateByName dfa (setName w nextStatesSet) of
           Some nextState \<Rightarrow>
             (case addEdge w dfa (ByState currentState) (ByState nextState) s of
                Inl err \<Rightarrow> Inl err
              | Inr (w', dfa', _) \<Rightarrow> Inr (w', dfa', todoStates))
         | None \<Rightarrow>
             (case addState w dfa (setName w nextStatesSet) False
                     (list_ex (\<lambda>s. final (sts w ! s)) nextStatesSet) nextStatesSet False of
                (w1, dfa1, nextState) \<Rightarrow>
                  (case addEdge w1 dfa1 (ByState currentState) (ByState nextState) s of
                     Inl err \<Rightarrow> Inl err
                   | Inr (w', dfa', _) \<Rightarrow> Inr (w', dfa', set_add nextState todoStates)))))"

text \<open>
  The loop \<open>while (todoStates.size > 0)\<close>: the first state of the set is taken out and
  every alphabet symbol is handled. \<open>None\<close> stands for a loop that never ends.
\<close>

partial_function (option) detLoop ::
  "automaton \<Rightarrow> world \<times> automaton \<times> nat list \<Rightarrow> (error + (world \<times> automaton)) option"
where
  "detLoop nfa st =
     (case st of (w, dfa, todoStates) \<Rightarrow>
        (case todoStates of
           [] \<Rightarrow> Some (Inr (w, dfa))
         | currentState # rest \<Rightarrow>
             (case foldE (detSymbol nfa currentState) (alphabet nfa) (w, dfa, rest) of
                Inl err \<Rightarrow> Some (Inl err)
              | Inr st' \<Rightarrow> detLoop nfa st')))"

declare detLoop.simps [code]

definition subsetConstruction :: "world \<Rightarrow> automaton \<Rightarrow> (error + (world \<times> automaton)) option" where
  "subsetConstruction w nfa =
     (let dfa = newAutomaton (aname nfa @ ''-dfa'') (alphabet nfa);
          startStateSet = getStartStates w nfa
      in case addState w dfa (setName w startStateSet) True
                (list_ex (\<lambda>s. final (sts w ! s)) startStateSet) startStateSet False of
           (w1, dfa1, startState) \<Rightarrow> detLoop nfa (w1, dfa1, [startState]))"

definition makeDeterministic ::
  "world \<Rightarrow> automaton \<Rightarrow> bool \<Rightarrow> (error + (world \<times> automaton)) option"
where
  "makeDeterministic w a renameStatesFlag =
     (if isEmpty a then Some (reduce w a)
      else
        (case (if renameStatesFlag
               then (case reduce w a of Inl err \<Rightarrow> Inl err | Inr (w1, ar) \<Rightarrow> Inr (renameStates w1 ar))
               else Inr (w, a)) of
           Inl err \<Rightarrow> Some (Inl err)
         | Inr (w2, nfa) \<Rightarrow>
             if isDeterministic w2 nfa then Some (Inr (w2, nfa))
             else subsetConstruction w2 nfa))"

section \<open>Base62 names, depth-first renaming and the signature\<close>

text \<open>
  \<open>Util.toBase62(number, totalDigits)\<close> and \<open>Util.fromBase62(str)\<close> (util.js).
  \<open>fromBase62\<close> checks nothing: a character that is neither a digit nor an upper-case
  letter is read as a lower-case letter.
\<close>

definition digit62 :: "nat \<Rightarrow> char" where
  "digit62 remainder =
     (if remainder < 10 then char_of (of_char CHR ''0'' + remainder)
      else if remainder < 36 then char_of (of_char CHR ''A'' + remainder - 10)
      else char_of (of_char CHR ''a'' + remainder - 36))"

function toBase62Digits :: "nat \<Rightarrow> string \<Rightarrow> string" where
  "toBase62Digits number result =
     (if number > 0
      then toBase62Digits ((number - number mod 62) div 62) (digit62 (number mod 62) # result)
      else result)"
  by pat_completeness auto
termination
  by (relation "measure (\<lambda>(number, result). number)") (auto intro: div_less_dividend)

declare toBase62Digits.simps [simp del]

function padZeros :: "nat \<Rightarrow> string \<Rightarrow> string" where
  "padZeros totalDigits result =
     (if length result < totalDigits then padZeros totalDigits (CHR ''0'' # result) else result)"
  by pat_completeness auto
termination
  by (relation "measure (\<lambda>(totalDigits, result). totalDigits - length result)") auto

declare padZeros.simps [simp del]

definition toBase62 :: "nat \<Rightarrow> nat \<Rightarrow> string" where
  "toBase62 number totalDigits = padZeros totalDigits (toBase62Digits number [])"

definition value62 :: "char \<Rightarrow> int" where
  "value62 digit =
     (if CHR ''0'' \<le> digit \<and> digit \<le> CHR ''9'' then of_char digit - of_char CHR ''0''
      else if CHR ''A'' \<le> digit \<and> digit \<le> CHR ''Z'' then of_char digit - of_char CHR ''A'' + 10
      else of_char digit - of_char CHR ''a'' + 36)"

definition fromBase62 :: "string \<Rightarrow> int" where
  "fromBase62 str = foldl (\<lambda>result digit. result * 62 + value62 digit) 0 str"

text \<open>
  The width of the names, \<open>Math.floor(Math.log(n) / Math.log(62)) + 1\<close>, with the
  logarithm taken exactly (the rounding of floating-point numbers is not modelled).
\<close>

definition totalDigitsFor :: "nat \<Rightarrow> nat" where
  "totalDigitsFor n = nat \<lfloor>ln (real n) / ln 62\<rfloor> + 1"

lemma totalDigitsFor_code [code]:
  "totalDigitsFor n = (if n = 0 then 1 else floorlog 62 n)"
  by (simp add: totalDigitsFor_def floorlog_def log_def)

text \<open>
  \<open>renameStatesDFS()\<close>. The inner function
  \<^verbatim>\<open>
  function dfs (s) {
    s.marked = true
    a.renameState(s, Util.toBase62(count++, totalDigits))
    ;[...s.edgesOut].sort(Edge.compareBySymbol).forEach(e => {
      if (!e.sink.marked) { dfs(e.sink) }
    })
  }\<close>
  is again written with the pending edges of the enclosing loops as an explicit stack.
  The sort is stable, as \<open>Array.prototype.sort\<close> is.
\<close>

definition sortBySymbol :: "world \<Rightarrow> nat list \<Rightarrow> nat list" where
  "sortBySymbol w es = sort_key (\<lambda>e. symbol (eds w ! e)) es"

definition renameVisit :: "nat \<Rightarrow> nat \<Rightarrow> world \<times> automaton \<times> nat \<Rightarrow> world \<times> automaton \<times> nat" where
  "renameVisit totalDigits s st =
     (case st of (w, a, count) \<Rightarrow>
        (case renameState (mark w s) a s (toBase62 count totalDigits) of
           (w', a') \<Rightarrow> (w', a', count + 1)))"

lemma unmarkedCount_renameVisit:
  assumes "s < length (sts w)" and "\<not> marked (sts w ! s)"
  shows "unmarkedCount (fst (renameVisit d s (w, a, count))) < unmarkedCount w"
proof -
  have "unmarkedCount (fst (renameVisit d s (w, a, count)))
          = length (filter (\<lambda>s. \<not> marked s)
              ((sts w)[s := (sts w ! s)\<lparr>marked := True, name := toBase62 count d\<rparr>]))"
    using assms(1)
    by (simp add: renameVisit_def renameState_def mark_def updState_def unmarkedCount_def)
  also have "\<dots> < length (filter (\<lambda>s. \<not> marked s) (sts w))"
    using assms by (intro filter_update_less) simp_all
  finally show ?thesis by (simp add: unmarkedCount_def)
qed

function renameDfsEdges ::
  "nat \<Rightarrow> world \<times> automaton \<times> nat \<Rightarrow> nat list \<Rightarrow> error + (world \<times> automaton \<times> nat)"
where
  "renameDfsEdges totalDigits st [] = Inr st"
| "renameDfsEdges totalDigits st (e # pending) =
     (if e < length (eds (fst st)) \<and> sink (eds (fst st) ! e) < length (sts (fst st)) then
        (if marked (sts (fst st) ! sink (eds (fst st) ! e)) then renameDfsEdges totalDigits st pending
         else renameDfsEdges totalDigits (renameVisit totalDigits (sink (eds (fst st) ! e)) st)
                (sortBySymbol (fst (renameVisit totalDigits (sink (eds (fst st) ! e)) st))
                   (edgesOut (sts (fst (renameVisit totalDigits (sink (eds (fst st) ! e)) st))
                      ! sink (eds (fst st) ! e)))
                 @ pending))
      else Inl TypeError)"
  by pat_completeness auto
termination
proof (relation "measures [\<lambda>(d, st, pending). unmarkedCount (fst st), \<lambda>(d, st, pending). length pending]")
  show "wf (measures [\<lambda>(d, st, pending). unmarkedCount (fst st), \<lambda>(d, st, pending). length pending])"
    by simp
next
  fix totalDigits :: nat and st :: "world \<times> automaton \<times> nat" and e :: nat and pending :: "nat list"
  show "((totalDigits, st, pending), (totalDigits, st, e # pending))
          \<in> measures [\<lambda>(d, st, pending). unmarkedCount (fst st), \<lambda>(d, st, pending). length pending]"
    by simp
next
  fix totalDigits :: nat and st :: "world \<times> automaton \<times> nat" and e :: nat and pending :: "nat list"
  assume v: "e < length (eds (fst st)) \<and> sink (eds (fst st) ! e) < length (sts (fst st))"
    and m: "\<not> marked (sts (fst st) ! sink (eds (fst st) ! e))"
  obtain w a count where st: "st = (w, a, count)" by (cases st) auto
  have "unmarkedCount (fst (renameVisit totalDigits (sink (eds w ! e)) (w, a, count))) < unmarkedCount w"
    using v m unfolding st by (intro unmarkedCount_renameVisit) simp_all
  then show "((totalDigits, renameVisit totalDigits (sink (eds (fst st) ! e)) st,
               sortBySymbol (fst (renameVisit totalDigits (sink (eds (fst st) ! e)) st))
                 (edgesOut (sts (fst (renameVisit totalDigits (sink (eds (fst st) ! e)) st))
                    ! sink (eds (fst st) ! e))) @ pending),
              (totalDigits, st, e # pending))
          \<in> measures [\<lambda>(d, st, pending). unmarkedCount (fst st), \<lambda>(d, st, pending). length pending]"
    unfolding st by simp
qed

definition unmarkAll :: "world \<Rightarrow> nat list \<Rightarrow> world" where
  "unmarkAll w ss = fold (\<lambda>s w. updState w s (\<lambda>st. st\<lparr>marked := False\<rparr>)) ss w"

definition renameStatesDFS :: "world \<Rightarrow> automaton \<Rightarrow> error + (world \<times> automaton)" where
  "renameStatesDFS w a =
     (if length (states a) = 0 then Inr (w, a)
      else
        (let totalDigits = totalDigitsFor (length (states a));
             w1 = unmarkAll w (states a)
         in case getStartStates w1 a of
              [] \<Rightarrow> Inl (Error ''renameStatesDFS: no start states'')
            | s0 # _ \<Rightarrow>
                (case renameVisit totalDigits s0 (w1, a, 0) of
                   st \<Rightarrow>
                     (case renameDfsEdges totalDigits st
                             (sortBySymbol (fst st) (edgesOut (sts (fst st) ! s0))) of
                        Inl err \<Rightarrow> Inl err
                      | Inr (w2, a2, _) \<Rightarrow> Inr (w2, a2)))))"

text \<open>
  \<open>signatureDFS()\<close>: \<open>undefined\<close> (here \<open>None\<close>) for an automaton that is not
  deterministic, the string \<open>T|F|\<Sigma>\<close> otherwise. The renamed automaton is returned
  with it.
\<close>

definition successorName :: "world \<Rightarrow> nat \<Rightarrow> char \<Rightarrow> string" where
  "successorName w s symb =
     fold (\<lambda>e successor. if symbol (eds w ! e) = symb then name (sts w ! sink (eds w ! e)) else successor)
       (edgesOut (sts w ! s)) ''-''"

definition signatureDFS :: "world \<Rightarrow> automaton \<Rightarrow> error + (world \<times> automaton \<times> string option)" where
  "signatureDFS w a =
     (case renameStatesDFS w a of
        Inl err \<Rightarrow> Inl err
      | Inr (w1, aResult) \<Rightarrow>
          if \<not> isDeterministic w1 aResult then Inr (w1, aResult, None)
          else
            (let ordered = sort_key (\<lambda>s. name (sts w1 ! s)) (states aResult);
                 final_bits = map (\<lambda>s. if final (sts w1 ! s) then CHR ''1'' else CHR ''0'') ordered;
                 signature = concat (map (\<lambda>s. concat (map (successorName w1 s) (alphabet aResult))) ordered)
             in Inr (w1, aResult, Some (signature @ ''|'' @ final_bits @ ''|'' @ alphabet aResult))))"

section \<open>Completion and minimization\<close>

definition addEdgeTo ::
  "sref \<Rightarrow> sref \<Rightarrow> char \<Rightarrow> world \<times> automaton \<Rightarrow> error + (world \<times> automaton)"
where
  "addEdgeTo from to symb wa =
     (case wa of (w, a) \<Rightarrow>
        (case addEdge w a from to symb of Inl err \<Rightarrow> Inl err | Inr (w', a', _) \<Rightarrow> Inr (w', a')))"

definition selfLoops :: "nat \<Rightarrow> world \<times> automaton \<Rightarrow> error + (world \<times> automaton)" where
  "selfLoops s wa = foldE (\<lambda>symb. addEdgeTo (ByState s) (ByState s) symb) (alphabet (snd wa)) wa"

text \<open>
  \<open>complete()\<close>. The body of its inner loop, for a state \<open>s\<close> and a symbol:
  \<^verbatim>\<open>
  if (aResult.delta(s, sym).size === 0) {
    if (errorState === undefined) {
      errorState = aResult.addState('err')
      for (const se of aResult.alphabet.symbols) { aResult.addEdge(errorState, errorState, se) }
    }
    aResult.addEdge(s, errorState, sym)
  }\<close>
  The outer loop runs over the set of states while the error state joins it; the error
  state is then visited last and has a successor on every symbol, so the loop over the
  states that were there at the start does the same.
\<close>

definition completeSymbol ::
  "nat \<Rightarrow> char \<Rightarrow> world \<times> automaton \<times> nat option \<Rightarrow> error + (world \<times> automaton \<times> nat option)"
where
  "completeSymbol s symb st =
     (case st of (w, aResult, errorState) \<Rightarrow>
        if length (delta aResult s symb) = 0 then
          (case (case errorState of
                   Some es \<Rightarrow> Inr ((w, aResult), es)
                 | None \<Rightarrow>
                     (case addState w aResult ''err'' False False [] False of
                        (w1, a1, es) \<Rightarrow>
                          (case selfLoops es (w1, a1) of
                             Inl err \<Rightarrow> Inl err
                           | Inr wa2 \<Rightarrow> Inr (wa2, es)))) of
             Inl err \<Rightarrow> Inl err
           | Inr (wa3, es) \<Rightarrow>
               (case addEdgeTo (ByState s) (ByState es) symb wa3 of
                  Inl err \<Rightarrow> Inl err
                | Inr (w4, a4) \<Rightarrow> Inr (w4, a4, Some es)))
        else Inr st)"

definition complete :: "world \<Rightarrow> automaton \<Rightarrow> error + (world \<times> automaton)" where
  "complete w a =
     (case reduce w a of
        Inl err \<Rightarrow> Inl err
      | Inr (w1, aResult) \<Rightarrow>
          if length (states aResult) = 0 then
            (case addState w1 aResult ''0'' True False [] False of
               (w2, a2, startState) \<Rightarrow> selfLoops startState (w2, a2))
          else
            (case foldE (\<lambda>s st. foldE (completeSymbol s) (alphabet aResult) st)
                    (states aResult) (w1, aResult, None) of
               Inl err \<Rightarrow> Inl err
             | Inr (w3, a3, _) \<Rightarrow> Inr (w3, a3)))"

text \<open>
  Sequencing of methods that may throw or, through the subset construction, not return.
\<close>

definition andThen ::
  "(error + 'a) option \<Rightarrow> ('a \<Rightarrow> (error + 'b) option) \<Rightarrow> (error + 'b) option"
where
  "andThen m f = (case m of None \<Rightarrow> None | Some (Inl err) \<Rightarrow> Some (Inl err) | Some (Inr v) \<Rightarrow> f v)"

text \<open>The set operations of extendSet.js.\<close>

definition set_union :: "'a list \<Rightarrow> 'a list \<Rightarrow> 'a list" where
  "set_union this other = fold set_add other this"

definition set_intersect :: "'a list \<Rightarrow> 'a list \<Rightarrow> 'a list" where
  "set_intersect this other =
     (if length other > length this then filter (\<lambda>x. x \<in> set other) this
      else filter (\<lambda>x. x \<in> set this) other)"

definition set_difference :: "'a list \<Rightarrow> 'a list \<Rightarrow> 'a list" where
  "set_difference this other = filter (\<lambda>x. x \<notin> set other) this"

definition set_equals :: "'a list \<Rightarrow> 'a list \<Rightarrow> bool" where
  "set_equals this other = (list_all (\<lambda>x. x \<in> set this) other \<and> list_all (\<lambda>x. x \<in> set other) this)"

text \<open>
  Hopcroft's algorithm (\<open>minimizeHopcroft\<close>). \<open>statesInBySymbol\<close> is what
  \<open>calcStatesInBySymbol\<close> stores in every state. The parts of the partition and the
  entries of the waiting sets are sets of states; they are never empty inside the loop
  and the parts are disjoint, so a part is identified by its members.
\<close>

definition statesInBySymbol :: "world \<Rightarrow> nat \<Rightarrow> char \<Rightarrow> nat list" where
  "statesInBySymbol w s c =
     fold set_add (map (\<lambda>e. source (eds w ! e)) (filter (\<lambda>e. symbol (eds w ! e) = c) (edgesIn (sts w ! s)))) []"

fun pickSplitter :: "string \<Rightarrow> (char \<times> nat list list) list \<Rightarrow> (char \<times> nat list \<times> nat list list) option" where
  "pickSplitter [] waitingMap = None"
| "pickSplitter (c # cs) waitingMap =
     (case map_of waitingMap c of
        Some (splitterSet # others) \<Rightarrow> Some (c, splitterSet, others)
      | _ \<Rightarrow> pickSplitter cs waitingMap)"

definition updateWaiting ::
  "nat list \<Rightarrow> nat list \<Rightarrow> nat list \<Rightarrow> nat list \<Rightarrow> char
     \<Rightarrow> (char \<times> nat list list) list \<times> nat \<Rightarrow> (char \<times> nat list list) list \<times> nat"
where
  "updateWaiting part part1 part2 minPart c st =
     (case st of (waitingMap, waitingSetSize) \<Rightarrow>
        (let wm = (case map_of waitingMap c of None \<Rightarrow> [] | Some ws \<Rightarrow> ws) in
         case find (\<lambda>existingPart. set_equals existingPart part) wm of
           Some existingPart \<Rightarrow>
             (AList.update c (set_add part2 (set_add part1 (set_delete existingPart wm))) waitingMap,
              waitingSetSize + 1)
         | None \<Rightarrow> (AList.update c (set_add minPart wm) waitingMap, waitingSetSize + 1)))"

definition splitPart ::
  "world \<Rightarrow> string \<Rightarrow> char \<Rightarrow> nat list \<Rightarrow> nat list
     \<Rightarrow> nat list list \<times> (char \<times> nat list list) list \<times> nat
     \<Rightarrow> nat list list \<times> (char \<times> nat list list) list \<times> nat"
where
  "splitPart w symbols splitterChar splitterSet part st =
     (case st of (newPartition, waitingMap, waitingSetSize) \<Rightarrow>
        (let splitter = fold (\<lambda>s acc. set_union acc (statesInBySymbol w s splitterChar)) splitterSet [];
             part1 = set_intersect part splitter;
             part2 = set_difference part splitter
         in if length part1 = 0 \<or> length part2 = 0 then (set_add part newPartition, waitingMap, waitingSetSize)
            else
              (let minPart = (if length part1 < length part2 then part1 else part2) in
               case fold (updateWaiting part part1 part2 minPart) symbols (waitingMap, waitingSetSize) of
                 (waitingMap', waitingSetSize') \<Rightarrow>
                   (set_add part2 (set_add part1 newPartition), waitingMap', waitingSetSize'))))"

partial_function (option) hopcroftLoop ::
  "world \<Rightarrow> string
     \<Rightarrow> nat list list \<times> (char \<times> nat list list) list \<times> nat \<times> (char \<times> nat list) option
     \<Rightarrow> (error + nat list list) option"
where
  "hopcroftLoop w symbols st =
     (case st of (parts, waitingMap, waitingSetSize, splitter) \<Rightarrow>
        if waitingSetSize > 0 then
          (case (case pickSplitter symbols waitingMap of
                   Some (c, splitterSet, others) \<Rightarrow>
                     (Some (c, splitterSet), AList.update c others waitingMap, waitingSetSize - 1)
                 | None \<Rightarrow> (splitter, waitingMap, waitingSetSize)) of
             (None, _, _) \<Rightarrow> Some (Inl TypeError)
           | (Some (splitterChar, splitterSet), waitingMap1, waitingSetSize1) \<Rightarrow>
               (case fold (splitPart w symbols splitterChar splitterSet) parts
                       ([], waitingMap1, waitingSetSize1) of
                  (newPartition, waitingMap2, waitingSetSize2) \<Rightarrow>
                    hopcroftLoop w symbols
                      (newPartition, waitingMap2, waitingSetSize2, Some (splitterChar, splitterSet))))
        else Some (Inr parts))"

declare hopcroftLoop.simps [code]

definition partOf :: "nat list list \<Rightarrow> nat \<Rightarrow> nat list option" where
  "partOf parts s = find (\<lambda>part. s \<in> set part) (rev parts)"

definition mergeState :: "nat list \<Rightarrow> world \<times> automaton \<Rightarrow> world \<times> automaton" where
  "mergeState part wa =
     (case wa of (w, aResult) \<Rightarrow>
        (case addState w aResult (setName w part)
                (list_ex (\<lambda>s. start (sts w ! s)) part) (list_ex (\<lambda>s. final (sts w ! s)) part) [] False of
           (w', a', _) \<Rightarrow> (w', a')))"

definition mergeEdge ::
  "automaton \<Rightarrow> nat list list \<Rightarrow> nat list \<Rightarrow> char \<Rightarrow> world \<times> automaton \<Rightarrow> error + (world \<times> automaton)"
where
  "mergeEdge a parts part c wa =
     (case map_of (deltaMap a) c of
        None \<Rightarrow> Inl TypeError
      | Some dmc \<Rightarrow>
          if length dmc > 0 \<and> part \<noteq> [] then
            (case map_of dmc (last part) of
               None \<Rightarrow> Inr wa
             | Some [] \<Rightarrow> Inl TypeError
             | Some (toState # _) \<Rightarrow>
                 (case partOf parts toState of
                    None \<Rightarrow> Inl TypeError
                  | Some toPart \<Rightarrow>
                      addEdgeTo (ByName (setName (fst wa) part)) (ByName (setName (fst wa) toPart)) c wa))
          else Inr wa)"

definition minimizeHopcroft :: "world \<Rightarrow> automaton \<Rightarrow> (error + (world \<times> automaton)) option" where
  "minimizeHopcroft w this =
     andThen (Some (reduce w this)) (\<lambda>(w1, a1).
     andThen (makeDeterministic w1 a1 True) (\<lambda>(w2, a2).
     andThen (Some (renameStatesDFS w2 a2)) (\<lambda>(w3, a3).
     andThen (Some (complete w3 a3)) (\<lambda>(w4, a).
       if length (states a) < 2 then Some (Inr (w4, a))
       else
         (let finalStates = getFinalStates w4 a;
              nonFinalStates = set_difference (states a) finalStates;
              minSet = (if length finalStates < length nonFinalStates then finalStates else nonFinalStates)
          in andThen
               (if length minSet \<noteq> 0
                then hopcroftLoop w4 (alphabet a)
                       ([finalStates, nonFinalStates],
                        fold (\<lambda>c wm. AList.update c [minSet] wm) (alphabet a) [],
                        length (alphabet a), None)
                else Some (Inr [finalStates, nonFinalStates]))
               (\<lambda>parts.
                  (case fold mergeState parts
                          (w4, newAutomaton (''minimized '' @ aname a) (alphabet a)) of
                     wa5 \<Rightarrow>
                       andThen
                         (Some (foldE (\<lambda>part. foldE (mergeEdge a parts part) (alphabet a)) parts wa5))
                         (\<lambda>(w6, aResult). Some (complete w6 aResult)))))))))"

text \<open>Brzozowski's algorithm, \<open>minimize\<close> and \<open>equivalent\<close>.\<close>

definition minimizeBrzozowski :: "world \<Rightarrow> automaton \<Rightarrow> (error + (world \<times> automaton)) option" where
  "minimizeBrzozowski w a =
     andThen (Some (reverse w a)) (\<lambda>(w1, a1).
     andThen (makeDeterministic w1 a1 True) (\<lambda>(w2, a2).
     andThen (Some (reverse w2 a2)) (\<lambda>(w3, a3).
     andThen (makeDeterministic w3 a3 True) (\<lambda>(w4, a4).
     andThen (Some (complete w4 a4)) (\<lambda>(w5, aResult).
       Some (Inr (w5, aResult\<lparr>aname := ''minimized '' @ aname a\<rparr>)))))))"

definition minimize :: "world \<Rightarrow> automaton \<Rightarrow> string \<Rightarrow> (error + (world \<times> automaton)) option" where
  "minimize w a algorithm =
     (if algorithm = ''Brzozowski'' then minimizeBrzozowski w a else minimizeHopcroft w a)"

definition equivalent :: "world \<Rightarrow> automaton \<Rightarrow> automaton \<Rightarrow> (error + (world \<times> bool)) option" where
  "equivalent w this a2 =
     andThen (minimize w this ''Hopcroft'') (\<lambda>(w1, m1).
     andThen (Some (signatureDFS w1 m1)) (\<lambda>(w2, _, sig1).
     andThen (minimize w2 a2 ''Hopcroft'') (\<lambda>(w3, m2).
     andThen (Some (signatureDFS w3 m2)) (\<lambda>(w4, _, sig2).
       Some (Inr (w4, sig1 = sig2))))))"

section \<open>Construction from a signature\<close>

text \<open>\<open>String.prototype.split\<close> with a one-character separator, and \<open>substr\<close>.\<close>

fun split :: "char \<Rightarrow> string \<Rightarrow> string list" where
  "split sep [] = [[]]"
| "split sep (c # cs) =
     (if c = sep then [] # split sep cs
      else (case split sep cs of [] \<Rightarrow> [[c]] | p # ps \<Rightarrow> (c # p) # ps))"

definition substr :: "string \<Rightarrow> nat \<Rightarrow> nat \<Rightarrow> string" where
  "substr str from len = take len (drop from str)"

text \<open>
  The test \<open>to[0] !== '-' && Util.fromBase62(to) < numberStates\<close> of
  \<open>constructFromSignature\<close>.
\<close>

definition isTransition :: "nat \<Rightarrow> string \<Rightarrow> bool" where
  "isTransition numberStates to =
     ((case to of [] \<Rightarrow> True | c # _ \<Rightarrow> c \<noteq> CHR ''-'') \<and> fromBase62 to < int numberStates)"

definition signatureEdge ::
  "string \<Rightarrow> string \<Rightarrow> nat \<Rightarrow> nat \<Rightarrow> nat \<Rightarrow> nat \<Rightarrow> world \<times> automaton \<Rightarrow> error + (world \<times> automaton)"
where
  "signatureEdge transitions symbols numberStates digitsPerState i j wa =
     (let to = substr transitions (digitsPerState * (i * length symbols + j)) digitsPerState in
      if isTransition numberStates to
      then addEdgeTo (ByName (toBase62 i digitsPerState)) (ByName to) (symbols ! j) wa
      else Inr wa)"

definition signatureState :: "string \<Rightarrow> nat \<Rightarrow> nat \<Rightarrow> world \<times> automaton \<Rightarrow> world \<times> automaton" where
  "signatureState finals digitsPerState i wa =
     (case wa of (w, a) \<Rightarrow>
        (case addState w a (toBase62 i digitsPerState) (i = 0) (finals ! i = CHR ''1'') [] False of
           (w', a', _) \<Rightarrow> (w', a')))"

definition constructFromSignature :: "world \<Rightarrow> string \<Rightarrow> error + (world \<times> automaton)" where
  "constructFromSignature w signature =
     (case split CHR ''|'' signature of
        [transitions, finals, symbols] \<Rightarrow>
          if length transitions = 0 \<or> length finals = 0 \<or> length symbols = 0
          then Inl (Error ''empty part not allowed'')
          else
            (let numberStates = length finals;
                 digitsPerState = totalDigitsFor numberStates
             in if digitsPerState * numberStates * length symbols \<noteq> length transitions
                then Inl (Error ''wrong signature length'')
                else
                  foldE (\<lambda>i. foldE (signatureEdge transitions symbols numberStates digitsPerState i)
                               [0 ..< length symbols])
                    [0 ..< numberStates]
                    (fold (signatureState finals digitsPerState) [0 ..< numberStates]
                       (w, newAutomaton (''signature '' @ signature) symbols)))
      | _ \<Rightarrow> Inl (Error ''there must be exactly 3 parts''))"

text \<open>
  The keys of the two maps of an automaton under construction: the registered state names, and
  the symbols that have a row in \<open>deltaMap\<close>.
\<close>

definition keysOK :: "string set \<Rightarrow> string \<Rightarrow> world \<times> automaton \<Rightarrow> bool" where
  "keysOK N symbols wa =
     (dom (map_of (stateNameMap (snd wa))) = N \<and> set symbols \<subseteq> dom (map_of (deltaMap (snd wa))))"

text \<open>
  An entry of the transitions part that passes the test of \<open>constructFromSignature\<close> but is
  not the name of one of the states \<open>toBase62 0 .. toBase62 (numberStates - 1)\<close>.
\<close>

definition badEntry :: "string \<Rightarrow> string \<Rightarrow> nat \<Rightarrow> nat \<Rightarrow> nat \<Rightarrow> nat \<Rightarrow> bool" where
  "badEntry transitions symbols numberStates digitsPerState i j =
     (isTransition numberStates
        (substr transitions (digitsPerState * (i * length symbols + j)) digitsPerState)
      \<and> substr transitions (digitsPerState * (i * length symbols + j)) digitsPerState
          \<notin> set (map (\<lambda>k. toBase62 k digitsPerState) [0 ..< numberStates]))"

text \<open>A call throws when its result is an error.\<close>

definition throws :: "error + 'a \<Rightarrow> bool" where
  "throws r = (case r of Inl _ \<Rightarrow> True | Inr _ \<Rightarrow> False)"

section \<open>Generalized automaton\<close>

text \<open>
  The constructors of \<open>RegularExpression\<close> that the state elimination uses:
  \<open>new RegularExpression(word)\<close>, \<open>sum\<close>, \<open>star\<close> and \<open>concat\<close>, which returns the other
  operand when one is the empty word.
\<close>

definition newWord :: "string \<Rightarrow> RegularExpression" where
  "newWord r1 = RWord (if r1 = ''E'' then [] else r1)"

definition re_concat :: "RegularExpression \<Rightarrow> RegularExpression \<Rightarrow> RegularExpression" where
  "re_concat this r = (if this = RWord [] then r else if r = RWord [] then this else RConcat this r)"

definition SYMBOL :: char where
  "SYMBOL = CHR ''a''"

text \<open>
  \<open>GeneralizedAutomaton.addEdge(from, to, re)\<close>: the expression is summed into the
  label of the existing edge, or a new edge gets it.
\<close>

definition gaAddEdge ::
  "sref \<Rightarrow> sref \<Rightarrow> RegularExpression \<Rightarrow> world \<times> automaton \<Rightarrow> error + (world \<times> automaton)"
where
  "gaAddEdge from to r wa =
     (case wa of (w, a) \<Rightarrow>
        (case getEdge w a from to SYMBOL of
           Inl err \<Rightarrow> Inl err
         | Inr (Some e) \<Rightarrow>
             (case re (eds w ! e) of
                None \<Rightarrow> Inl TypeError
              | Some r0 \<Rightarrow> Inr (updEdge w e (\<lambda>ed. ed\<lparr>re := Some (RSum r0 r)\<rparr>), a))
         | Inr None \<Rightarrow>
             (case addEdge w a from to SYMBOL of
                Inl err \<Rightarrow> Inl err
              | Inr (w', a', e) \<Rightarrow> Inr (updEdge w' e (\<lambda>ed. ed\<lparr>re := Some r\<rparr>), a'))))"

text \<open>
  \<open>GeneralizedAutomaton.copyOf(aut)\<close>. The copy of a state is added with \<open>forceNew\<close>;
  the edges are then added between the states found under the names of the original
  states.
\<close>

definition copyOfState :: "nat \<Rightarrow> nat \<Rightarrow> nat \<Rightarrow> world \<times> automaton \<Rightarrow> error + (world \<times> automaton)" where
  "copyOfState startState finalState s wa =
     (case wa of (w, ga) \<Rightarrow>
        (case addState w ga (name (sts w ! s)) False False [] True of
           (w1, ga1, newSt) \<Rightarrow>
             (case (if start (sts w1 ! s)
                    then gaAddEdge (ByState startState) (ByState newSt) (newWord []) (w1, ga1)
                    else Inr (w1, ga1)) of
                Inl err \<Rightarrow> Inl err
              | Inr (w2, ga2) \<Rightarrow>
                  if final (sts w2 ! s)
                  then gaAddEdge (ByState newSt) (ByState finalState) (newWord []) (w2, ga2)
                  else Inr (w2, ga2))))"

definition copyOfEdge :: "nat \<Rightarrow> world \<times> automaton \<Rightarrow> error + (world \<times> automaton)" where
  "copyOfEdge e wa =
     gaAddEdge (ByName (sourceName (fst wa) (eds (fst wa) ! e)))
       (ByName (sinkName (fst wa) (eds (fst wa) ! e)))
       (newWord [symbol (eds (fst wa) ! e)]) wa"

definition copyOf :: "world \<Rightarrow> automaton \<Rightarrow> error + (world \<times> automaton)" where
  "copyOf w aut =
     (let ga = newAutomaton (''generalized '' @ aname aut) ''ab'' in
      if isEmpty aut then Inr (w, ga)
      else
        (case addState w ga ''start'' True False [] True of
           (w1, ga1, startState) \<Rightarrow>
             (case addState w1 ga1 ''final'' False True [] True of
                (w2, ga2, finalState) \<Rightarrow>
                  (case foldE (copyOfState startState finalState) (states aut) (w2, ga2) of
                     Inl err \<Rightarrow> Inl err
                   | Inr wa3 \<Rightarrow> foldE copyOfEdge (edges aut) wa3))))"

text \<open>
  One round of the loop of \<open>equivalentRE\<close>: the first state that is neither start nor
  final is eliminated. The loops run over the edges that \<open>removeState\<close> has when they
  begin; the edges added inside them join other states.
\<close>

definition loopStep :: "world \<Rightarrow> nat \<Rightarrow> RegularExpression option \<Rightarrow> error + RegularExpression option" where
  "loopStep w edgeIn loopRE =
     (if source (eds w ! edgeIn) = sink (eds w ! edgeIn) then
        (case loopRE of
           None \<Rightarrow> Inr (re (eds w ! edgeIn))
         | Some l \<Rightarrow>
             (case re (eds w ! edgeIn) of None \<Rightarrow> Inl TypeError | Some r \<Rightarrow> Inr (Some (RSum l r))))
      else Inr loopRE)"

definition bypass ::
  "RegularExpression option \<Rightarrow> nat \<Rightarrow> nat \<Rightarrow> world \<times> automaton \<Rightarrow> error + (world \<times> automaton)"
where
  "bypass loopRE edgeIn edgeOut wa =
     (case wa of (w, a) \<Rightarrow>
        if source (eds w ! edgeOut) \<noteq> sink (eds w ! edgeOut) then
          (case (re (eds w ! edgeIn), re (eds w ! edgeOut)) of
             (Some rIn, Some rOut) \<Rightarrow>
               gaAddEdge (ByName (sourceName w (eds w ! edgeIn))) (ByName (sinkName w (eds w ! edgeOut)))
                 (case loopRE of
                    None \<Rightarrow> re_concat rIn rOut
                  | Some l \<Rightarrow> re_concat (re_concat rIn (RStar l)) rOut)
                 (w, a)
           | _ \<Rightarrow> Inl TypeError)
        else Inr (w, a))"

definition bypassAll ::
  "nat \<Rightarrow> RegularExpression option \<Rightarrow> nat \<Rightarrow> world \<times> automaton \<Rightarrow> error + (world \<times> automaton)"
where
  "bypassAll removeState loopRE edgeIn wa =
     (if source (eds (fst wa) ! edgeIn) \<noteq> sink (eds (fst wa) ! edgeIn)
      then foldE (bypass loopRE edgeIn) (edgesOut (sts (fst wa) ! removeState)) wa
      else Inr wa)"

definition eliminate :: "world \<Rightarrow> automaton \<Rightarrow> error + (world \<times> automaton)" where
  "eliminate w a =
     (case find (\<lambda>s. \<not> start (sts w ! s) \<and> \<not> final (sts w ! s)) (states a) of
        None \<Rightarrow> Inl TypeError
      | Some removeState \<Rightarrow>
          (case foldE (loopStep w) (edgesIn (sts w ! removeState)) None of
             Inl err \<Rightarrow> Inl err
           | Inr loopRE \<Rightarrow>
               (case foldE (bypassAll removeState loopRE) (edgesIn (sts w ! removeState)) (w, a) of
                  Inl err \<Rightarrow> Inl err
                | Inr (w1, a1) \<Rightarrow> deleteState w1 a1 (ByState removeState))))"

text \<open>
  The loop \<open>while (a.states.size > 2)\<close> of \<open>equivalentRE\<close>. Every round that does not
  throw takes one state out of \<open>states\<close>, which is what the termination proof uses.
\<close>

lemma foldE_invariant:
  assumes "foldE f xs s = Inr s'" and "P s"
    and "\<And>x t t'. x \<in> set xs \<Longrightarrow> P t \<Longrightarrow> f x t = Inr t' \<Longrightarrow> P t'"
  shows "P s'"
  using assms
proof (induction xs arbitrary: s)
  case Nil
  then show ?case by simp
next
  case (Cons x xs)
  from Cons.prems(1) obtain t where t: "f x s = Inr t" and rest: "foldE f xs t = Inr s'"
    by (auto split: sum.splits)
  have "P t" using Cons.prems(2,3) t by auto
  then show ?case using Cons.IH [OF rest] Cons.prems(3) by auto
qed

lemma addState_cases:
  assumes "addState w a nm st fi tg forceNew = (w', a', s)"
  obtains (existing) "getStateByName a (forcedName a nm forceNew) = Some s" and "w' = w" and "a' = a"
  | (fresh) "getStateByName a (forcedName a nm forceNew) = None" and "s = length (sts w)"
      and "w' = w\<lparr>sts := sts w @ [newState (forcedName a nm forceNew) st fi tg]\<rparr>"
      and "a' = a\<lparr>states := set_add s (states a),
                     stateNameMap := AList.update (forcedName a nm forceNew) s (stateNameMap a)\<rparr>"
  using assms by (auto simp: addState_def Let_def split: option.splits)

lemma addEdge_cases:
  assumes "addEdge w a from to symb = Inr (w', a', e)"
  obtains (existing) "getEdge w a from to symb = Inr (Some e)" and "w' = w" and "a' = a"
  | (fresh) f t dm where "getEdge w a from to symb = Inr None"
      and "getState a from = Some f" and "getState a to = Some t"
      and "map_of (deltaMap a) symb = Some dm" and "e = length (eds w)"
      and "w' = updState
                 (updState (w\<lparr>eds := eds w @ [\<lparr>source = f, sink = t, symbol = symb, re = None\<rparr>]\<rparr>)
                    f (\<lambda>s. s\<lparr>edgesOut := set_add e (edgesOut s)\<rparr>))
                 t (\<lambda>s. s\<lparr>edgesIn := set_add e (edgesIn s)\<rparr>)"
      and "a' = a\<lparr>edges := set_add e (edges a),
                     deltaMap := AList.update symb
                       (AList.update f (set_add t (case map_of dm f of None \<Rightarrow> [] | Some ts \<Rightarrow> ts)) dm)
                       (deltaMap a)\<rparr>"
  using assms by (auto simp: addEdge_def Let_def split: sum.splits option.splits)

lemma addEdge_states: "addEdge w a from to symb = Inr (w', a', e) \<Longrightarrow> states a' = states a"
  by (auto simp: addEdge_def Let_def split: sum.splits option.splits)

lemma gaAddEdge_states: "gaAddEdge from to r (w, a) = Inr (w', a') \<Longrightarrow> states a' = states a"
  by (auto simp: gaAddEdge_def split: sum.splits option.splits dest: addEdge_states)

lemma deleteEdge_states: "deleteEdge w a e = Inr (w', a') \<Longrightarrow> states a' = states a"
  by (auto simp: deleteEdge_def Let_def split: option.splits)

lemma deleteEdges_states:
  assumes "foldE (\<lambda>e (w, a). deleteEdge w a e) es (w, a) = Inr (w', a')"
  shows "states a' = states a"
proof -
  have "states (snd (w', a')) = states a"
    by (rule foldE_invariant [OF assms, where P = "\<lambda>wa. states (snd wa) = states a"])
       (auto dest: deleteEdge_states)
  then show ?thesis by simp
qed

lemma deleteState_states:
  assumes "deleteState w a (ByState s) = Inr (w', a')"
  shows "states a' = set_delete s (states a)"
  using assms
  by (auto simp: deleteState_def getState_def split: sum.splits dest!: deleteEdges_states)

lemma bypass_states: "bypass loopRE edgeIn edgeOut (w, a) = Inr (w', a') \<Longrightarrow> states a' = states a"
  by (auto simp: bypass_def split: if_splits option.splits dest: gaAddEdge_states)

lemma bypassAll_states:
  assumes "bypassAll removeState loopRE edgeIn (w, a) = Inr (w', a')"
  shows "states a' = states a"
proof (cases "source (eds w ! edgeIn) \<noteq> sink (eds w ! edgeIn)")
  case True
  then have f: "foldE (bypass loopRE edgeIn) (edgesOut (sts w ! removeState)) (w, a) = Inr (w', a')"
    using assms by (simp add: bypassAll_def)
  have "states (snd (w', a')) = states a"
    by (rule foldE_invariant [OF f, where P = "\<lambda>wa. states (snd wa) = states a"])
       (auto dest: bypass_states)
  then show ?thesis by simp
next
  case False
  then show ?thesis using assms by (simp add: bypassAll_def)
qed

lemma eliminate_states:
  assumes "eliminate w a = Inr (w', a')"
  shows "length (states a') < length (states a)"
proof -
  from assms obtain removeState loopRE w1 a1 where
    found: "find (\<lambda>s. \<not> start (sts w ! s) \<and> \<not> final (sts w ! s)) (states a) = Some removeState"
    and f: "foldE (bypassAll removeState loopRE) (edgesIn (sts w ! removeState)) (w, a) = Inr (w1, a1)"
    and d: "deleteState w1 a1 (ByState removeState) = Inr (w', a')"
    by (auto simp: eliminate_def split: option.splits sum.splits)
  have "states (snd (w1, a1)) = states a"
    by (rule foldE_invariant [OF f, where P = "\<lambda>wa. states (snd wa) = states a"])
       (auto dest: bypassAll_states)
  then have "states a' = removeAll removeState (states a)"
    using deleteState_states [OF d] by (simp add: set_delete_def)
  moreover have "removeState \<in> set (states a)"
    using found by (auto simp: find_Some_iff)
  ultimately show ?thesis
    by (simp add: length_removeAll_less)
qed

function elimLoop :: "world \<Rightarrow> automaton \<Rightarrow> error + (world \<times> automaton)" where
  "elimLoop w a =
     (if length (states a) > 2
      then (case eliminate w a of Inl err \<Rightarrow> Inl err | Inr (w', a') \<Rightarrow> elimLoop w' a')
      else Inr (w, a))"
  by pat_completeness auto
termination
  by (relation "measure (\<lambda>(w, a). length (states a))") (auto dest: eliminate_states)

declare elimLoop.simps [simp del]

text \<open>
  \<open>equivalentRE()\<close> returns the expression of the empty language for an automaton
  without states and when no edge is left, and the label of the first edge of \<open>edges\<close>
  otherwise (\<open>None\<close> when that edge has no label).
\<close>

definition equivalentRE ::
  "world \<Rightarrow> automaton \<Rightarrow> error + (world \<times> automaton \<times> RegularExpression option)"
where
  "equivalentRE w a =
     (if isEmpty a then Inr (w, a, Some REmpty)
      else
        (case elimLoop w a of
           Inl err \<Rightarrow> Inl err
         | Inr (w', a') \<Rightarrow>
             (case edges a' of
                [] \<Rightarrow> Inr (w', a', Some REmpty)
              | e # _ \<Rightarrow> Inr (w', a', re (eds w' ! e)))))"

section \<open>Sequences of mutating operations\<close>

text \<open>
  The mutating methods of an automaton as data, to speak of sequences of calls.
  \<open>RenameState\<close>, and \<open>DeleteEdge\<close> take the object, \<open>AddEdge\<close> and \<open>DeleteState\<close> a
  name or an object, as the methods do.
\<close>

datatype operation =
    AddState string bool bool "nat list" bool
  | AddEdge sref sref char
  | RenameState nat string
  | DeleteEdge nat
  | DeleteState sref

fun perform :: "operation \<Rightarrow> world \<times> automaton \<Rightarrow> error + (world \<times> automaton)" where
  "perform (AddState nm st fi tg forceNew) (w, a) =
     (case addState w a nm st fi tg forceNew of (w', a', _) \<Rightarrow> Inr (w', a'))"
| "perform (AddEdge from to symb) (w, a) = addEdgeTo from to symb (w, a)"
| "perform (RenameState s newName) (w, a) = Inr (renameState w a s newName)"
| "perform (DeleteEdge e) (w, a) = deleteEdge w a e"
| "perform (DeleteState r) (w, a) = deleteState w a r"

text \<open>
  The invariant of the data model: \<open>stateNameMap\<close> maps the name of every state of
  \<open>states\<close> to that state, and the names of the states are pairwise distinct.
\<close>

definition namesInvariant :: "world \<Rightarrow> automaton \<Rightarrow> bool" where
  "namesInvariant w a =
     (list_all (\<lambda>s. getStateByName a (name (sts w ! s)) = Some s) (states a)
      \<and> distinct (map (\<lambda>s. name (sts w ! s)) (states a)))"

text \<open>
  The calls under which the invariant is kept: a state is added under a name that is not
  empty; a state of the automaton is renamed to a name that no other state of it has; the
  state that is deleted is a state of the automaton.
\<close>

fun admissible :: "operation \<Rightarrow> world \<times> automaton \<Rightarrow> bool" where
  "admissible (AddState nm st fi tg forceNew) (w, a) = (nm \<noteq> [])"
| "admissible (AddEdge from to symb) (w, a) = True"
| "admissible (RenameState s newName) (w, a) =
     (s \<in> set (states a) \<and> list_all (\<lambda>t. t = s \<or> name (sts w ! t) \<noteq> newName) (states a))"
| "admissible (DeleteEdge e) (w, a) = True"
| "admissible (DeleteState r) (w, a) =
     (case getState a r of None \<Rightarrow> True | Some s \<Rightarrow> s \<in> set (states a))"

fun admissibleAll :: "operation list \<Rightarrow> world \<times> automaton \<Rightarrow> bool" where
  "admissibleAll [] wa = True"
| "admissibleAll (oper # opers) wa =
     (admissible oper wa
      \<and> (case perform oper wa of Inl err \<Rightarrow> True | Inr wa' \<Rightarrow> admissibleAll opers wa'))"

section \<open>Example automata\<close>

text \<open>
  Scripts over the public methods, used as concrete inputs below. \<open>withState\<close> is
  \<open>a.addState(name, start, final)\<close>, \<open>withEdge\<close> is \<open>a.addEdge(from, to, symbol)\<close> with
  the states given by name.
\<close>

definition withState :: "string \<Rightarrow> bool \<Rightarrow> bool \<Rightarrow> world \<times> automaton \<Rightarrow> world \<times> automaton" where
  "withState nm st fi wa =
     (case wa of (w, a) \<Rightarrow> (case addState w a nm st fi [] False of (w', a', _) \<Rightarrow> (w', a')))"

definition withEdge :: "string \<Rightarrow> string \<Rightarrow> char \<Rightarrow> world \<times> automaton \<Rightarrow> error + (world \<times> automaton)" where
  "withEdge from to symb wa = addEdgeTo (ByName from) (ByName to) symb wa"

text \<open>
  \<^verbatim>\<open>
  const a = new Automaton('A', 'ab')
  a.addState('0', true, false); a.addState('1', false, true); a.addEdge('0', '1', 'a')
  a.reduce()
  a.addState('2', false, true); a.addEdge('1', '2', 'b')\<close>
  The call of \<open>reduce\<close> leaves the states \<open>0\<close> and \<open>1\<close> marked.
\<close>

definition extendedAfterReduce :: "error + (world \<times> automaton)" where
  "extendedAfterReduce =
     (case withEdge ''0'' ''1'' CHR ''a''
             (withState ''1'' False True
               (withState ''0'' True False (emptyWorld, newAutomaton ''A'' ''ab''))) of
        Inl err \<Rightarrow> Inl err
      | Inr (w1, a1) \<Rightarrow>
          (case reduce w1 a1 of
             Inl err \<Rightarrow> Inl err
           | Inr (w2, _) \<Rightarrow> withEdge ''1'' ''2'' CHR ''b'' (withState ''2'' False True (w2, a1))))"

text \<open>
  \<^verbatim>\<open>
  const a = new Automaton('A', 'a')
  a.addState('0', true, false); a.addState('1', false, false); a.addEdge('0', '1', 'a')
  a.renameStatesDFS()
  a.addState('2', false, true); a.addEdge('1', '2', 'a')\<close>
  The call of \<open>renameStatesDFS\<close> leaves the states \<open>0\<close> and \<open>1\<close> marked (and keeps
  their names).
\<close>

definition extendedAfterRename :: "error + (world \<times> automaton)" where
  "extendedAfterRename =
     (case withEdge ''0'' ''1'' CHR ''a''
             (withState ''1'' False False
               (withState ''0'' True False (emptyWorld, newAutomaton ''A'' ''a''))) of
        Inl err \<Rightarrow> Inl err
      | Inr (w1, a1) \<Rightarrow>
          (case renameStatesDFS w1 a1 of
             Inl err \<Rightarrow> Inl err
           | Inr wa2 \<Rightarrow> withEdge ''1'' ''2'' CHR ''a'' (withState ''2'' False True wa2)))"

text \<open>
  Two automata with the default name \<open>A\<close>, each with one start state \<open>0\<close>; the state
  of the second is final.
\<close>

definition sameNameFirst :: "world \<times> automaton" where
  "sameNameFirst = withState ''0'' True False (emptyWorld, newAutomaton ''A'' ''ab'')"

definition sameNameSecond :: "world \<times> automaton" where
  "sameNameSecond = withState ''0'' True True (fst sameNameFirst, newAutomaton ''A'' ''ab'')"

text \<open>
  An automaton whose only state is named \<open>start\<close>, is start and final and has a loop
  on \<open>a\<close>: it accepts every word of \<open>a\<close>'s.
\<close>

definition loopNamedStart :: "error + (world \<times> automaton)" where
  "loopNamedStart =
     withEdge ''start'' ''start'' CHR ''a''
       (withState ''start'' True True (emptyWorld, newAutomaton ''A'' ''ab''))"

text \<open>A start state \<open>0\<close> with an edge to a second state \<open>1\<close>.\<close>

definition twoStates :: "error + (world \<times> automaton)" where
  "twoStates =
     withEdge ''0'' ''1'' CHR ''a''
       (withState ''1'' False True (withState ''0'' True False (emptyWorld, newAutomaton ''A'' ''ab'')))"

text \<open>One state that is final and not start; two start states.\<close>

definition noStartState :: "world \<times> automaton" where
  "noStartState = withState ''q'' False True (emptyWorld, newAutomaton ''A'' ''ab'')"

definition twoStartStates :: "world \<times> automaton" where
  "twoStartStates =
     withState ''1'' True True (withState ''0'' True False (emptyWorld, newAutomaton ''A'' ''ab''))"

text \<open>
  A nondeterministic automaton for the words that end with \<open>ab\<close>: the start state \<open>0\<close>
  loops on both symbols and has a second edge on \<open>a\<close>.
\<close>

definition endsWithAB :: "error + (world \<times> automaton)" where
  "endsWithAB =
     foldE (\<lambda>(from, to, symb). withEdge from to symb)
       [(''0'', ''0'', CHR ''a''), (''0'', ''0'', CHR ''b''), (''0'', ''1'', CHR ''a''),
        (''1'', ''2'', CHR ''b'')]
       (withState ''2'' False True
          (withState ''1'' False False
             (withState ''0'' True False (emptyWorld, newAutomaton ''A'' ''ab''))))"

section \<open>Facts about Base62 names\<close>

lemma length_padZeros: "length (padZeros d r) = max d (length r)"
proof (induction d r rule: padZeros.induct)
  case (1 totalDigits result)
  show ?case
  proof (cases "length result < totalDigits")
    case True
    then show ?thesis using 1 by (subst padZeros.simps) auto
  next
    case False
    then show ?thesis by (subst padZeros.simps) auto
  qed
qed

lemma length_toBase62Digits: "length (toBase62Digits i acc) = length acc + floorlog 62 i"
proof (induction i acc rule: toBase62Digits.induct)
  case (1 number result)
  show ?case
  proof (cases "number > 0")
    case True
    have d: "(number - number mod 62) div 62 = number div 62"
      by (simp add: minus_mod_eq_mult_div)
    have f: "floorlog 62 number = floorlog 62 (number div 62) + 1"
      using True by (subst compute_floorlog) simp
    show ?thesis using 1 True d f by (subst toBase62Digits.simps) simp
  next
    case False
    then show ?thesis by (subst toBase62Digits.simps) (simp add: floorlog_def)
  qed
qed

lemma length_toBase62: "length (toBase62 i d) = max d (floorlog 62 i)"
  by (simp add: toBase62_def length_padZeros length_toBase62Digits)

lemma totalDigitsFor_floorlog: "0 < n \<Longrightarrow> totalDigitsFor n = floorlog 62 n"
  by (simp add: totalDigitsFor_code)

lemma ceiling_log62_two: "nat \<lceil>log 62 (real 2)\<rceil> + 1 = 2"
proof -
  have "0 < log 62 (2::real)" by simp
  moreover have "log 62 (2::real) \<le> 1" by simp
  ultimately have "\<lceil>log 62 (2::real)\<rceil> = 1" by (intro ceiling_unique) simp_all
  then show ?thesis by simp
qed

section \<open>Facts about the depth-first renaming\<close>

text \<open>
  The store is well formed when every edge that a state lists in \<open>edgesOut\<close> is a
  constructed edge whose sink is a constructed state, as all references of the engine
  are; \<open>statesOK\<close> says the same of the states of an automaton.
\<close>

definition heapOK :: "world \<Rightarrow> bool" where
  "heapOK w =
     list_all (\<lambda>st. list_all (\<lambda>e. e < length (eds w) \<and> sink (eds w ! e) < length (sts w)) (edgesOut st))
       (sts w)"

lemma heapOK_iff:
  "heapOK w \<longleftrightarrow>
     (\<forall>s < length (sts w). \<forall>e \<in> set (edgesOut (sts w ! s)).
        e < length (eds w) \<and> sink (eds w ! e) < length (sts w))"
  by (simp add: heapOK_def list_all_iff all_set_conv_all_nth)

lemma nth_update_field:
  assumes "\<And>x. g (f x) = g x"
  shows "g ((xs[i := f (xs ! i)]) ! j) = g (xs ! j)"
  by (cases "i < length xs") (auto simp: nth_list_update assms list_update_beyond)

lemma updState_field:
  assumes "\<And>x. g (f x) = g x"
  shows "g (sts (updState w s f) ! t) = g (sts w ! t)"
  by (simp add: updState_def nth_update_field [where g = g, OF assms])

lemma updState_length [simp]: "length (sts (updState w s f)) = length (sts w)"
  by (simp add: updState_def)

lemma updState_eds [simp]: "eds (updState w s f) = eds w"
  by (simp add: updState_def)

lemma renameVisit_shape:
  assumes "renameVisit d s (w, a, count) = (w', a', count')"
  shows "length (sts w') = length (sts w)" and "eds w' = eds w"
    and "edgesOut (sts w' ! t) = edgesOut (sts w ! t)"
    and "start (sts w' ! t) = start (sts w ! t)"
    and "states a' = states a" and "deltaMap a' = deltaMap a"
  using assms
  by (auto simp: renameVisit_def renameState_def mark_def updState_field)

lemma renameVisit_heapOK:
  assumes "heapOK w" and "renameVisit d s (w, a, count) = (w', a', count')"
  shows "heapOK w'"
  using assms(1) renameVisit_shape [OF assms(2)]
  by (simp add: heapOK_iff)

lemma renameDfsEdges_returns:
  assumes "heapOK (fst st)"
    and "\<forall>e \<in> set pending. e < length (eds (fst st)) \<and> sink (eds (fst st) ! e) < length (sts (fst st))"
  shows "\<exists>st'. renameDfsEdges d st pending = Inr st'"
  using assms
proof (induction d st pending rule: renameDfsEdges.induct)
  case (1 totalDigits st)
  show ?case by (rule exI [of _ st]) simp
next
  case (2 totalDigits st e pending)
  obtain w a count where st: "st = (w, a, count)" using prod_cases3 by blast
  let ?t = "sink (eds w ! e)"
  have v: "e < length (eds w)" "?t < length (sts w)" using "2.prems"(2) st by auto
  show ?case
  proof (cases "marked (sts w ! ?t)")
    case True
    then show ?thesis using "2.IH"(1) "2.prems" v st by simp
  next
    case False
    obtain w' a' count' where rv: "renameVisit totalDigits ?t (w, a, count) = (w', a', count')"
      by (cases "renameVisit totalDigits ?t (w, a, count)") auto
    note sh = renameVisit_shape [OF rv]
    have ok': "heapOK w'" using renameVisit_heapOK [OF _ rv] "2.prems"(1) st by simp
    have "\<forall>e' \<in> set (edgesOut (sts w ! ?t)). e' < length (eds w) \<and> sink (eds w ! e') < length (sts w)"
      using "2.prems"(1) v st by (auto simp: heapOK_iff)
    then have pend: "\<forall>e' \<in> set (sortBySymbol w' (edgesOut (sts w' ! ?t)) @ pending).
                e' < length (eds w') \<and> sink (eds w' ! e') < length (sts w')"
      using "2.prems"(2) sh st by (auto simp: sortBySymbol_def)
    have "\<exists>st'. renameDfsEdges totalDigits (renameVisit totalDigits ?t st)
             (sortBySymbol (fst (renameVisit totalDigits ?t st))
                (edgesOut (sts (fst (renameVisit totalDigits ?t st)) ! ?t)) @ pending) = Inr st'"
      using "2.IH"(2) [OF _ _] v False st rv ok' pend by simp
    then show ?thesis using v False st by simp
  qed
qed

definition statesOK :: "world \<Rightarrow> automaton \<Rightarrow> bool" where
  "statesOK w a = list_all (\<lambda>s. s < length (sts w)) (states a)"

lemma unmarkAll_shape:
  "length (sts (unmarkAll w ss)) = length (sts w)"
  "eds (unmarkAll w ss) = eds w"
  "edgesOut (sts (unmarkAll w ss) ! t) = edgesOut (sts w ! t)"
  "start (sts (unmarkAll w ss) ! t) = start (sts w ! t)"
  unfolding unmarkAll_def
  by (induction ss arbitrary: w) (simp_all add: updState_field)

lemma unmarkAll_heapOK: "heapOK w \<Longrightarrow> heapOK (unmarkAll w ss)"
  by (simp add: heapOK_iff unmarkAll_shape)

lemma renameDfsEdges_shape:
  assumes "renameDfsEdges d st pending = Inr st'"
  shows "states (fst (snd st')) = states (fst (snd st))
         \<and> deltaMap (fst (snd st')) = deltaMap (fst (snd st))
         \<and> (\<forall>t. start (sts (fst st') ! t) = start (sts (fst st) ! t))"
  using assms
proof (induction d st pending arbitrary: st' rule: renameDfsEdges.induct)
  case (1 totalDigits st)
  then show ?case by simp
next
  case (2 totalDigits st e pending)
  obtain w a count where st: "st = (w, a, count)" using prod_cases3 by blast
  let ?t = "sink (eds w ! e)"
  have v: "e < length (eds w) \<and> ?t < length (sts w)"
    using "2.prems" st by (auto split: if_splits)
  show ?case
  proof (cases "marked (sts w ! ?t)")
    case True
    then show ?thesis using "2.IH"(1) "2.prems" v st by simp
  next
    case False
    obtain w1 a1 count1 where rv: "renameVisit totalDigits ?t (w, a, count) = (w1, a1, count1)"
      using prod_cases3 by blast
    note sh = renameVisit_shape [OF rv]
    have "states (fst (snd st')) = states a1 \<and> deltaMap (fst (snd st')) = deltaMap a1
          \<and> (\<forall>t. start (sts (fst st') ! t) = start (sts w1 ! t))"
      using "2.IH"(2) [of st'] "2.prems" v False st rv by simp
    then show ?thesis using sh st by simp
  qed
qed

lemma renameStatesDFS_cases:
  assumes "heapOK w" and "statesOK w a"
  shows "if states a \<noteq> [] \<and> getStartStates w a = []
         then renameStatesDFS w a = Inl (Error ''renameStatesDFS: no start states'')
         else (\<exists>w' a'. renameStatesDFS w a = Inr (w', a'))"
proof (cases "states a = []")
  case True
  then show ?thesis by (simp add: renameStatesDFS_def)
next
  case ne: False
  let ?w1 = "unmarkAll w (states a)"
  have gs: "getStartStates ?w1 a = getStartStates w a"
    by (simp add: getStartStates_def unmarkAll_shape)
  show ?thesis
  proof (cases "getStartStates w a")
    case Nil
    then show ?thesis using ne gs by (simp add: renameStatesDFS_def Let_def)
  next
    case (Cons s0 rest)
    then have "s0 \<in> set (states a)"
      by (metis filter_is_subset getStartStates_def list.set_intros(1) subsetD)
    then have s0: "s0 < length (sts ?w1)"
      using assms(2) by (simp add: statesOK_def list_all_iff unmarkAll_shape)
    let ?d = "totalDigitsFor (length (states a))"
    obtain w2 a2 c2 where rv: "renameVisit ?d s0 (?w1, a, 0) = (w2, a2, c2)"
      using prod_cases3 by blast
    note sh = renameVisit_shape [OF rv]
    have ok1: "heapOK ?w1" by (rule unmarkAll_heapOK [OF assms(1)])
    have ok2: "heapOK w2" by (rule renameVisit_heapOK [OF ok1 rv])
    have "\<forall>e \<in> set (edgesOut (sts w2 ! s0)). e < length (eds w2) \<and> sink (eds w2 ! e) < length (sts w2)"
      using ok2 s0 sh by (simp add: heapOK_iff)
    then have "\<exists>st'. renameDfsEdges ?d (w2, a2, c2) (sortBySymbol w2 (edgesOut (sts w2 ! s0))) = Inr st'"
      using ok2 by (intro renameDfsEdges_returns) (simp_all add: sortBySymbol_def)
    then obtain w3 a3 c3 where "renameDfsEdges ?d (w2, a2, c2) (sortBySymbol w2 (edgesOut (sts w2 ! s0))) = Inr (w3, a3, c3)"
      by (metis prod_cases3)
    then have "renameStatesDFS w a = Inr (w3, a3)"
      using ne gs Cons rv by (simp add: renameStatesDFS_def Let_def)
    then show ?thesis using ne Cons by simp
  qed
qed

lemma renameStatesDFS_isDeterministic:
  assumes "renameStatesDFS w a = Inr (w', a')"
  shows "isDeterministic w' a' = isDeterministic w a"
proof (cases "states a = []")
  case True
  then show ?thesis using assms by (simp add: renameStatesDFS_def)
next
  case ne: False
  let ?w1 = "unmarkAll w (states a)"
  let ?d = "totalDigitsFor (length (states a))"
  from assms ne obtain s0 rest c3 where
    gs: "getStartStates ?w1 a = s0 # rest"
    and r: "renameDfsEdges ?d (renameVisit ?d s0 (?w1, a, 0))
              (sortBySymbol (fst (renameVisit ?d s0 (?w1, a, 0)))
                 (edgesOut (sts (fst (renameVisit ?d s0 (?w1, a, 0))) ! s0))) = Inr (w', a', c3)"
    by (auto simp: renameStatesDFS_def Let_def split: list.splits sum.splits)
  obtain w2 a2 c2 where rv: "renameVisit ?d s0 (?w1, a, 0) = (w2, a2, c2)"
    using prod_cases3 by blast
  note sh = renameVisit_shape [OF rv]
  have "states a' = states a2 \<and> deltaMap a' = deltaMap a2 \<and> (\<forall>t. start (sts w' ! t) = start (sts w2 ! t))"
    using renameDfsEdges_shape [OF r] rv by simp
  then have "states a' = states a" "deltaMap a' = deltaMap a" "\<And>t. start (sts w' ! t) = start (sts w ! t)"
    using sh by (simp_all add: unmarkAll_shape)
  then show ?thesis
    by (simp add: isDeterministic_def getStartStates_def)
qed

text \<open>
  The search of \<open>renameStatesDFS\<close> stays inside the automaton when every edge that a state
  of the automaton lists in \<open>edgesOut\<close> is a constructed edge into a state of the automaton.
\<close>

definition edgesOutOK :: "world \<Rightarrow> automaton \<Rightarrow> bool" where
  "edgesOutOK w a =
     list_all (\<lambda>s. list_all (\<lambda>e. e < length (eds w) \<and> sink (eds w ! e) \<in> set (states a))
                      (edgesOut (sts w ! s)))
       (states a)"

text \<open>
  The invariant of the search: the states of the automaton that are marked are the states
  renamed so far, \<open>count\<close> of them, each to the name of a smaller number.
\<close>

definition renameInv :: "nat set \<Rightarrow> nat \<Rightarrow> world \<times> automaton \<times> nat \<Rightarrow> bool" where
  "renameInv V d st =
     (case st of (w, a, count) \<Rightarrow>
        (\<forall>s \<in> V. s < length (sts w)
            \<and> (\<forall>e \<in> set (edgesOut (sts w ! s)). e < length (eds w) \<and> sink (eds w ! e) \<in> V))
        \<and> card {s \<in> V. marked (sts w ! s)} = count
        \<and> (\<forall>s \<in> V. marked (sts w ! s) \<longrightarrow> (\<exists>k < count. name (sts w ! s) = toBase62 k d)))"

lemma renameVisit_fields:
  assumes "t < length (sts w)" and "renameVisit d t (w, a, count) = (w', a', count')"
  shows "count' = Suc count"
    and "marked (sts w' ! s) = (s = t \<or> marked (sts w ! s))"
    and "name (sts w' ! s) = (if s = t then toBase62 count d else name (sts w ! s))"
  using assms
  by (auto simp: renameVisit_def renameState_def mark_def updState_def nth_list_update split: if_splits)

lemma renameVisit_inv:
  assumes fin: "finite V" and inv: "renameInv V d (w, a, count)"
    and t: "t \<in> V" and m: "\<not> marked (sts w ! t)"
  shows "renameInv V d (renameVisit d t (w, a, count))"
proof -
  obtain w' a' count' where r: "renameVisit d t (w, a, count) = (w', a', count')"
    using prod_cases3 by blast
  have tv: "t < length (sts w)" using inv t by (simp add: renameInv_def)
  note f = renameVisit_fields [OF tv r]
  note sh = renameVisit_shape [OF r]
  have M: "{s \<in> V. marked (sts w' ! s)} = insert t {s \<in> V. marked (sts w ! s)}"
    using f(2) t by auto
  have "card {s \<in> V. marked (sts w' ! s)} = Suc (card {s \<in> V. marked (sts w ! s)})"
    unfolding M using fin m by (subst card_insert_disjoint) auto
  then have c: "card {s \<in> V. marked (sts w' ! s)} = count'"
    using inv f(1) by (simp add: renameInv_def)
  have n: "\<exists>k < count'. name (sts w' ! s) = toBase62 k d"
    if sV: "s \<in> V" and sm: "marked (sts w' ! s)" for s
  proof (cases "s = t")
    case True
    then show ?thesis using f(1) f(3) [of s] by auto
  next
    case False
    then have "marked (sts w ! s)" using sm f(2) [of s] by simp
    then obtain k where "k < count" "name (sts w ! s) = toBase62 k d"
      using inv sV unfolding renameInv_def by auto
    then show ?thesis using False f(1) f(3) [of s] by (auto intro: exI [of _ k])
  qed
  have v: "\<forall>s \<in> V. s < length (sts w')
            \<and> (\<forall>e \<in> set (edgesOut (sts w' ! s)). e < length (eds w') \<and> sink (eds w' ! e) \<in> V)"
    using inv sh(1,2,3) by (simp add: renameInv_def)
  show ?thesis unfolding r renameInv_def using v c n by simp
qed

lemma renameDfsEdges_inv:
  assumes "finite V" and "renameInv V d st"
    and "\<forall>e \<in> set pending. e < length (eds (fst st)) \<and> sink (eds (fst st) ! e) \<in> V"
  shows "\<exists>st'. renameDfsEdges d st pending = Inr st' \<and> renameInv V d st'
           \<and> (\<forall>s \<in> V. marked (sts (fst st) ! s) \<longrightarrow> marked (sts (fst st') ! s))"
  using assms
proof (induction d st pending rule: renameDfsEdges.induct)
  case (1 totalDigits st)
  then show ?case by simp
next
  case (2 totalDigits st e pending)
  obtain w a count where st: "st = (w, a, count)" using prod_cases3 by blast
  let ?t = "sink (eds w ! e)"
  have tV: "?t \<in> V" and ev: "e < length (eds w)" using "2.prems"(3) st by auto
  have tv: "?t < length (sts w)" using "2.prems"(2) tV st by (simp add: renameInv_def)
  show ?case
  proof (cases "marked (sts w ! ?t)")
    case True
    then show ?thesis using "2.IH"(1) "2.prems" ev tv st by simp
  next
    case False
    obtain w' a' count' where rv: "renameVisit totalDigits ?t (w, a, count) = (w', a', count')"
      using prod_cases3 by blast
    note sh = renameVisit_shape [OF rv]
    note f = renameVisit_fields [OF tv rv]
    have inv': "renameInv V totalDigits (w', a', count')"
      using renameVisit_inv [OF "2.prems"(1) _ tV False, of totalDigits a count] "2.prems"(2) st rv
      by simp
    have out: "\<forall>e' \<in> set (edgesOut (sts w ! ?t)). e' < length (eds w) \<and> sink (eds w ! e') \<in> V"
      using "2.prems"(2) tV st by (simp add: renameInv_def)
    have pend: "\<forall>e' \<in> set (sortBySymbol w' (edgesOut (sts w' ! ?t)) @ pending).
                e' < length (eds w') \<and> sink (eds w' ! e') \<in> V"
      using out "2.prems"(3) sh st by (auto simp: sortBySymbol_def)
    have "\<exists>st'. renameDfsEdges totalDigits (renameVisit totalDigits ?t st)
             (sortBySymbol (fst (renameVisit totalDigits ?t st))
                (edgesOut (sts (fst (renameVisit totalDigits ?t st)) ! ?t)) @ pending) = Inr st'
           \<and> renameInv V totalDigits st'
           \<and> (\<forall>s \<in> V. marked (sts (fst (renameVisit totalDigits ?t st)) ! s)
                 \<longrightarrow> marked (sts (fst st') ! s))"
      using "2.IH"(2) [OF _ _ "2.prems"(1)] ev tv False st rv inv' pend by simp
    then obtain st' where
      r: "renameDfsEdges totalDigits (w', a', count')
             (sortBySymbol w' (edgesOut (sts w' ! ?t)) @ pending) = Inr st'"
      and i: "renameInv V totalDigits st'"
      and mm: "\<forall>s \<in> V. marked (sts w' ! s) \<longrightarrow> marked (sts (fst st') ! s)"
      using st rv by auto
    have "renameDfsEdges totalDigits st (e # pending) = Inr st'"
      using ev tv False st rv r by simp
    moreover have "\<forall>s \<in> V. marked (sts (fst st) ! s) \<longrightarrow> marked (sts (fst st') ! s)"
      using mm f(2) st by auto
    ultimately show ?thesis using i by blast
  qed
qed

lemma unmarkAll_fields:
  "name (sts (unmarkAll w ss) ! t) = name (sts w ! t)"
  "t \<in> set ss \<Longrightarrow> t < length (sts w) \<Longrightarrow> \<not> marked (sts (unmarkAll w ss) ! t)"
proof -
  show "name (sts (unmarkAll w ss) ! t) = name (sts w ! t)"
    unfolding unmarkAll_def by (induction ss arbitrary: w) (simp_all add: updState_field)
  have keep: "\<not> marked (sts w ! t) \<Longrightarrow> \<not> marked (sts (unmarkAll w ss) ! t)" for w ss
    unfolding unmarkAll_def
  proof (induction ss arbitrary: w)
    case Nil
    then show ?case by simp
  next
    case (Cons x xs)
    have "\<not> marked (sts (updState w x (\<lambda>st. st\<lparr>marked := False\<rparr>)) ! t)"
      using Cons.prems
      by (cases "x < length (sts w)") (auto simp: updState_def nth_list_update list_update_beyond)
    then show ?case using Cons.IH by simp
  qed
  show "t \<in> set ss \<Longrightarrow> t < length (sts w) \<Longrightarrow> \<not> marked (sts (unmarkAll w ss) ! t)"
  proof (induction ss arbitrary: w)
    case Nil
    then show ?case by simp
  next
    case (Cons x xs)
    let ?w = "updState w x (\<lambda>st. st\<lparr>marked := False\<rparr>)"
    have u: "unmarkAll w (x # xs) = unmarkAll ?w xs" by (simp add: unmarkAll_def)
    show ?case
    proof (cases "t = x")
      case True
      have "\<not> marked (sts ?w ! t)" using True Cons.prems(2) by (simp add: updState_def)
      then show ?thesis unfolding u by (rule keep)
    next
      case False
      then have "t \<in> set xs" using Cons.prems(1) by simp
      then show ?thesis unfolding u using Cons.IH [of ?w] Cons.prems(2) by simp
    qed
  qed
qed

lemma renameStatesDFS_names:
  assumes so: "statesOK w a" and eo: "edgesOutOK w a" and ss: "getStartStates w a \<noteq> []"
  shows "\<exists>w' a'. renameStatesDFS w a = Inr (w', a') \<and> states a' = states a
           \<and> marked (sts w' ! hd (getStartStates w a))
           \<and> (\<forall>s \<in> set (states a). marked (sts w' ! s) \<longrightarrow>
                 (\<exists>k < length (states a).
                     name (sts w' ! s) = toBase62 k (totalDigitsFor (length (states a)))))"
proof -
  let ?V = "set (states a)" and ?d = "totalDigitsFor (length (states a))"
  let ?w1 = "unmarkAll w (states a)"
  have ne: "length (states a) \<noteq> 0" using ss by (auto simp: getStartStates_def)
  have sv: "\<forall>s \<in> ?V. s < length (sts w)" using so by (simp add: statesOK_def list_all_iff)
  have gs: "getStartStates ?w1 a = getStartStates w a"
    by (simp add: getStartStates_def unmarkAll_shape)
  obtain s0 rest where s0: "getStartStates w a = s0 # rest" using ss by (cases "getStartStates w a") auto
  have s0V: "s0 \<in> ?V"
  proof -
    have "s0 \<in> set (getStartStates w a)" using s0 by simp
    then show ?thesis by (simp add: getStartStates_def)
  qed
  have inv1: "renameInv ?V ?d (?w1, a, 0)"
    unfolding renameInv_def
  proof (simp only: prod.case, intro conjI ballI impI)
    fix s assume "s \<in> ?V"
    then show "s < length (sts ?w1)" using sv by (simp add: unmarkAll_shape)
  next
    fix s e assume "s \<in> ?V" "e \<in> set (edgesOut (sts ?w1 ! s))"
    then show "e < length (eds ?w1)" "sink (eds ?w1 ! e) \<in> ?V"
      using eo by (auto simp: edgesOutOK_def list_all_iff unmarkAll_shape)
  next
    have "{s \<in> ?V. marked (sts ?w1 ! s)} = {}" using unmarkAll_fields(2) sv by auto
    then show "card {s \<in> ?V. marked (sts ?w1 ! s)} = 0" by simp
  next
    fix s assume "s \<in> ?V" "marked (sts ?w1 ! s)"
    then show "\<exists>k<0. name (sts ?w1 ! s) = toBase62 k ?d" using unmarkAll_fields(2) sv by auto
  qed
  have um: "\<not> marked (sts ?w1 ! s0)" using unmarkAll_fields(2) s0V sv by auto
  obtain w2 a2 c2 where rv: "renameVisit ?d s0 (?w1, a, 0) = (w2, a2, c2)" using prod_cases3 by blast
  have inv2: "renameInv ?V ?d (w2, a2, c2)"
    using renameVisit_inv [OF _ inv1 s0V um] rv by simp
  have s0v: "s0 < length (sts ?w1)" using s0V sv by (simp add: unmarkAll_shape)
  note f = renameVisit_fields [OF s0v rv]
  note sh = renameVisit_shape [OF rv]
  have pend: "\<forall>e \<in> set (sortBySymbol w2 (edgesOut (sts w2 ! s0))).
                e < length (eds (fst (w2, a2, c2))) \<and> sink (eds (fst (w2, a2, c2)) ! e) \<in> ?V"
    using inv2 s0V by (auto simp: renameInv_def sortBySymbol_def)
  obtain st' where r: "renameDfsEdges ?d (w2, a2, c2) (sortBySymbol w2 (edgesOut (sts w2 ! s0))) = Inr st'"
    and inv3: "renameInv ?V ?d st'"
    and mm: "\<forall>s \<in> ?V. marked (sts (fst (w2, a2, c2)) ! s) \<longrightarrow> marked (sts (fst st') ! s)"
    using renameDfsEdges_inv [OF _ inv2 pend] by auto
  obtain w3 a3 c3 where st': "st' = (w3, a3, c3)" using prod_cases3 by blast
  have res: "renameStatesDFS w a = Inr (w3, a3)"
    using ne gs s0 rv r st' by (simp add: renameStatesDFS_def Let_def)
  have sa: "states a3 = states a"
    using renameDfsEdges_shape [OF r] sh(5) st' by simp
  have m0: "marked (sts w3 ! s0)" using mm s0V f(2) [of s0] st' by simp
  have "c3 = card {s \<in> ?V. marked (sts w3 ! s)}" using inv3 st' by (simp add: renameInv_def)
  also have "\<dots> \<le> card ?V" by (intro card_mono) auto
  also have "\<dots> \<le> length (states a)" by (rule card_length)
  finally have c3: "c3 \<le> length (states a)" .
  have nm: "\<exists>k < length (states a). name (sts w3 ! s) = toBase62 k ?d"
    if sV: "s \<in> ?V" and sm: "marked (sts w3 ! s)" for s
  proof -
    obtain k where "k < c3" "name (sts w3 ! s) = toBase62 k ?d"
      using inv3 sV sm st' unfolding renameInv_def by auto
    then show ?thesis using c3 by (auto intro: exI [of _ k])
  qed
  show ?thesis using res sa m0 nm s0 by auto
qed

section \<open>Facts about the names of states\<close>

definition namesInv :: "world \<Rightarrow> automaton \<Rightarrow> bool" where
  "namesInv w a = (statesOK w a \<and> namesInvariant w a)"

lemma namesInv_iff:
  "namesInv w a \<longleftrightarrow>
     (\<forall>s \<in> set (states a). s < length (sts w) \<and> map_of (stateNameMap a) (name (sts w ! s)) = Some s)
     \<and> distinct (map (\<lambda>s. name (sts w ! s)) (states a))"
  by (auto simp: namesInv_def statesOK_def namesInvariant_def list_all_iff getStateByName_def)

lemma uniqueName_fresh: "map_of m (uniqueName m nm) = None"
proof (induction m nm rule: uniqueName.induct)
  case (1 m nm)
  then show ?case by (subst uniqueName.simps) auto
qed

lemma uniqueName_nonempty: "nm \<noteq> [] \<Longrightarrow> uniqueName m nm \<noteq> []"
proof (induction m nm rule: uniqueName.induct)
  case (1 m nm)
  then show ?case by (subst uniqueName.simps) auto
qed

lemma namesInv_addState:
  assumes inv: "namesInv w a" and ne: "nm \<noteq> []"
    and r: "addState w a nm st fi tg forceNew = (w', a', s)"
  shows "namesInv w' a'"
  using r
proof (cases rule: addState_cases)
  case existing
  then show ?thesis using inv by simp
next
  case fresh
  let ?nm = "forcedName a nm forceNew"
  have ne': "?nm \<noteq> []" using ne by (simp add: forcedName_def uniqueName_nonempty)
  have valid: "\<forall>t \<in> set (states a). t < length (sts w)"
    and mp: "\<forall>t \<in> set (states a). map_of (stateNameMap a) (name (sts w ! t)) = Some t"
    and dist: "distinct (map (\<lambda>t. name (sts w ! t)) (states a))"
    using inv by (simp_all add: namesInv_iff)
  have snew: "s \<notin> set (states a)" using valid fresh(2) by auto
  have st': "states a' = states a @ [s]" using snew fresh(4) by (simp add: set_add_def)
  have mp': "stateNameMap a' = AList.update ?nm s (stateNameMap a)" using fresh(4) by simp
  have old: "name (sts w ! t) \<noteq> ?nm" if "t \<in> set (states a)" for t
    using mp that fresh(1) by (auto simp: getStateByName_def)
  have nth_old: "sts w' ! t = sts w ! t" if "t \<in> set (states a)" for t
    using valid that fresh(3) by (simp add: nth_append)
  have nth_new: "name (sts w' ! s) = ?nm"
    using fresh(2,3) ne' by (simp add: newState_def)
  have len: "length (sts w') = Suc (length (sts w))" using fresh(3) by simp
  have names_old: "map (\<lambda>t. name (sts w' ! t)) (states a) = map (\<lambda>t. name (sts w ! t)) (states a)"
    using nth_old by simp
  show ?thesis
    unfolding namesInv_iff st' mp'
  proof (intro conjI ballI)
    fix t assume "t \<in> set (states a @ [s])"
    then consider "t \<in> set (states a)" | "t = s" by auto
    then show "t < length (sts w')"
      using valid len fresh(2) by cases auto
  next
    fix t assume "t \<in> set (states a @ [s])"
    then consider "t \<in> set (states a)" | "t = s" by auto
    then show "map_of (AList.update ?nm s (stateNameMap a)) (name (sts w' ! t)) = Some t"
    proof cases
      case 1
      then show ?thesis using mp old nth_old by (simp add: update_conv')
    next
      case 2
      then show ?thesis using nth_new by (simp add: update_conv')
    qed
  next
    have "?nm \<notin> set (map (\<lambda>t. name (sts w ! t)) (states a))"
      using old by force
    then have "distinct (map (\<lambda>t. name (sts w ! t)) (states a) @ [?nm])"
      using dist by simp
    moreover have "map (\<lambda>s. name (sts w' ! s)) (states a @ [s])
                     = map (\<lambda>t. name (sts w ! t)) (states a) @ [?nm]"
      by (simp only: map_append names_old nth_new list.map)
    ultimately show "distinct (map (\<lambda>s. name (sts w' ! s)) (states a @ [s]))"
      by (simp only:)
  qed
qed

lemma updState_name:
  assumes "\<And>x. name (f x) = name x"
  shows "name (sts (updState w s f) ! t) = name (sts w ! t)"
  using assms by (rule updState_field)

lemma addEdge_names:
  assumes "addEdge w a from to symb = Inr (w', a', e)"
  shows "length (sts w') = length (sts w)" and "name (sts w' ! t) = name (sts w ! t)"
    and "states a' = states a" and "stateNameMap a' = stateNameMap a"
  using assms
  by (cases rule: addEdge_cases; simp add: updState_field)+

lemma deleteEdge_names:
  assumes "deleteEdge w a e = Inr (w', a')"
  shows "length (sts w') = length (sts w)" and "name (sts w' ! t) = name (sts w ! t)"
    and "states a' = states a" and "stateNameMap a' = stateNameMap a"
  using assms
  by (auto simp: deleteEdge_def Let_def updState_field split: option.splits)

lemma namesInv_cong:
  assumes "namesInv w a" and "length (sts w') = length (sts w)"
    and "\<And>t. name (sts w' ! t) = name (sts w ! t)"
    and "states a' = states a" and "stateNameMap a' = stateNameMap a"
  shows "namesInv w' a'"
  using assms by (simp add: namesInv_iff)

lemma deleteEdges_names:
  assumes "foldE (\<lambda>e (w, a). deleteEdge w a e) es (w, a) = Inr (w', a')"
  shows "length (sts w') = length (sts w)" and "name (sts w' ! t) = name (sts w ! t)"
    and "states a' = states a" and "stateNameMap a' = stateNameMap a"
proof -
  let ?P = "\<lambda>wa. length (sts (fst wa)) = length (sts w) \<and> (\<forall>t. name (sts (fst wa) ! t) = name (sts w ! t))
         \<and> states (snd wa) = states a \<and> stateNameMap (snd wa) = stateNameMap a"
  have "?P (w', a')"
    by (rule foldE_invariant [OF assms, where P = ?P]) (auto simp: deleteEdge_names)
  then show "length (sts w') = length (sts w)" and "name (sts w' ! t) = name (sts w ! t)"
    and "states a' = states a" and "stateNameMap a' = stateNameMap a"
    by simp_all
qed

lemma namesInv_renameState:
  assumes inv: "namesInv w a" and s: "s \<in> set (states a)"
    and free: "\<forall>t \<in> set (states a). t = s \<or> name (sts w ! t) \<noteq> newName"
    and r: "renameState w a s newName = (w', a')"
  shows "namesInv w' a'"
proof -
  have sv: "s < length (sts w)" using inv s by (auto simp: namesInv_iff)
  have w': "sts w' = (sts w)[s := (sts w ! s)\<lparr>name := newName\<rparr>]"
    and a': "states a' = states a"
            "stateNameMap a' = AList.update newName s (AList.delete (name (sts w ! s)) (stateNameMap a))"
    using r by (auto simp: renameState_def updState_def)
  have names: "\<And>t. name (sts w' ! t) = (if t = s then newName else name (sts w ! t))"
    using sv by (simp add: w' nth_list_update)
  have other: "\<forall>t \<in> set (states a). t \<noteq> s \<longrightarrow> name (sts w ! t) \<noteq> name (sts w ! s)"
    using inv s by (auto simp: namesInv_iff distinct_map inj_on_def)
  have m: "\<forall>t \<in> set (states a). map_of (stateNameMap a') (name (sts w' ! t)) = Some t"
    using inv free other by (auto simp: namesInv_iff a' names update_conv' delete_conv')
  have "inj_on (\<lambda>t. name (sts w' ! t)) (set (states a))"
  proof (rule inj_onI)
    fix x y assume "x \<in> set (states a)" "y \<in> set (states a)"
      and "name (sts w' ! x) = name (sts w' ! y)"
    then have "Some x = Some y" using m by metis
    then show "x = y" by simp
  qed
  moreover have "distinct (states a)" using inv by (auto simp: namesInv_iff distinct_map)
  ultimately have "distinct (map (\<lambda>t. name (sts w' ! t)) (states a))"
    by (simp add: distinct_map)
  then show ?thesis using inv m by (auto simp: namesInv_iff a' w')
qed

lemma namesInv_deleteState:
  assumes inv: "namesInv w a" and g: "getState a r = Some s" and s: "s \<in> set (states a)"
    and r: "deleteState w a r = Inr (w', a')"
  shows "namesInv w' a'"
proof -
  obtain w1 a1 where
    f1: "foldE (\<lambda>e (w, a). deleteEdge w a e) (edgesIn (sts w ! s)) (w, a) = Inr (w1, a1)"
    using r g by (cases "foldE (\<lambda>e (w, a). deleteEdge w a e) (edgesIn (sts w ! s)) (w, a)")
                 (auto simp: deleteState_def)
  obtain w2 a2 where
    f2: "foldE (\<lambda>e (w, a). deleteEdge w a e) (edgesOut (sts w1 ! s)) (w1, a1) = Inr (w2, a2)"
    using r g f1 by (cases "foldE (\<lambda>e (w, a). deleteEdge w a e) (edgesOut (sts w1 ! s)) (w1, a1)")
                    (auto simp: deleteState_def)
  have "deleteState w a r
          = Inr (w2, a2\<lparr>stateNameMap := AList.delete (name (sts w2 ! s)) (stateNameMap a2),
                            states := set_delete s (states a2)\<rparr>)"
    using g f1 f2 by (simp add: deleteState_def)
  then have "(w', a') = (w2, a2\<lparr>stateNameMap := AList.delete (name (sts w2 ! s)) (stateNameMap a2),
                            states := set_delete s (states a2)\<rparr>)"
    using r by simp
  then have w': "w' = w2"
    and a': "a' = a2\<lparr>stateNameMap := AList.delete (name (sts w2 ! s)) (stateNameMap a2),
                      states := set_delete s (states a2)\<rparr>"
    by blast+
  have c1: "length (sts w2) = length (sts w)"
    by (simp only: deleteEdges_names(1) [OF f2] deleteEdges_names(1) [OF f1])
  have c2: "name (sts w2 ! t) = name (sts w ! t)" for t
    by (simp only: deleteEdges_names(2) [OF f2] deleteEdges_names(2) [OF f1])
  have c3: "states a2 = states a"
    by (simp only: deleteEdges_names(3) [OF f2] deleteEdges_names(3) [OF f1])
  have c4: "stateNameMap a2 = stateNameMap a"
    by (simp only: deleteEdges_names(4) [OF f2] deleteEdges_names(4) [OF f1])
  have inv2: "namesInv w2 a2"
    by (rule namesInv_cong [OF inv c1 c2 c3 c4])
  have d2: "distinct (map (\<lambda>t. name (sts w2 ! t)) (states a2))"
    and m2: "\<forall>t \<in> set (states a2). t < length (sts w2) \<and> map_of (stateNameMap a2) (name (sts w2 ! t)) = Some t"
    using inv2 by (simp_all add: namesInv_iff)
  have s2: "s \<in> set (states a2)" using s c3 by simp
  have other: "name (sts w2 ! t) \<noteq> name (sts w2 ! s)" if "t \<in> set (states a2)" "t \<noteq> s" for t
  proof
    assume "name (sts w2 ! t) = name (sts w2 ! s)"
    then have "Some t = Some s" using m2 that(1) s2 by metis
    then show False using that(2) by simp
  qed
  have dd: "distinct (map (\<lambda>t. name (sts w2 ! t)) (removeAll s (states a2)))"
    using d2 by (simp add: removeAll_filter_not_eq distinct_map_filter)
  have st': "states a' = removeAll s (states a2)"
    and mp': "stateNameMap a' = AList.delete (name (sts w2 ! s)) (stateNameMap a2)"
    by (simp_all add: a' set_delete_def)
  show ?thesis
    unfolding namesInv_iff st' mp' w'
  proof (intro conjI ballI)
    fix t assume t: "t \<in> set (removeAll s (states a2))"
    then have ts: "t \<in> set (states a2)" "t \<noteq> s" by auto
    show "t < length (sts w2)" using m2 ts by simp
    show "map_of (AList.delete (name (sts w2 ! s)) (stateNameMap a2)) (name (sts w2 ! t)) = Some t"
      using m2 ts other [OF ts] by (simp add: delete_conv')
  next
    show "distinct (map (\<lambda>s. name (sts w2 ! s)) (removeAll s (states a2)))" by (rule dd)
  qed
qed

lemma namesInv_perform:
  assumes "namesInv w a" and "admissible oper (w, a)" and "perform oper (w, a) = Inr (w', a')"
  shows "namesInv w' a'"
proof (cases oper)
  case (AddState nm st fi tg forceNew)
  then show ?thesis
    using assms by (auto split: prod.splits intro: namesInv_addState)
next
  case (AddEdge f t c)
  then show ?thesis
    using assms
    by (auto simp: addEdgeTo_def split: sum.splits intro!: namesInv_cong [of w a] simp: addEdge_names)
next
  case (RenameState s newName)
  then show ?thesis
    using assms by (auto simp: list_all_iff intro: namesInv_renameState)
next
  case (DeleteEdge e)
  then show ?thesis
    using assms by (auto intro!: namesInv_cong [of w a] simp: deleteEdge_names)
next
  case (DeleteState r)
  show ?thesis
  proof (cases "getState a r")
    case None
    then show ?thesis using assms DeleteState by (simp add: deleteState_def)
  next
    case (Some s)
    then show ?thesis using assms DeleteState by (auto intro: namesInv_deleteState)
  qed
qed

lemma namesInv_new: "namesInv w (newAutomaton nm symbols)"
  by (simp add: namesInv_iff newAutomaton_def)

lemma namesInv_performAll:
  assumes "namesInv (fst wa) (snd wa)" and "admissibleAll opers wa" and "foldE perform opers wa = Inr wa'"
  shows "namesInv (fst wa') (snd wa')"
  using assms
proof (induction opers arbitrary: wa)
  case Nil
  then show ?case by simp
next
  case (Cons oper opers)
  from Cons.prems(3) obtain wa1 where p: "perform oper wa = Inr wa1"
    and rest: "foldE perform opers wa1 = Inr wa'"
    by (auto split: sum.splits)
  have "namesInv (fst wa1) (snd wa1)"
    using namesInv_perform [of "fst wa" "snd wa" oper "fst wa1" "snd wa1"] Cons.prems(1,2) p by simp
  moreover have "admissibleAll opers wa1" using Cons.prems(2) p by simp
  ultimately show ?case using Cons.IH rest by blast
qed

section \<open>Facts about the construction from a signature\<close>

lemma foldE_fails_iff:
  assumes "\<And>x t. x \<in> set xs \<Longrightarrow> P t \<Longrightarrow> (\<exists>e. f x t = Inl e) = bad x"
    and "\<And>x t t'. x \<in> set xs \<Longrightarrow> P t \<Longrightarrow> f x t = Inr t' \<Longrightarrow> P t'"
    and "P s"
  shows "(\<exists>e. foldE f xs s = Inl e) = (\<exists>x \<in> set xs. bad x)"
  using assms
proof (induction xs arbitrary: s)
  case Nil
  then show ?case by simp
next
  case (Cons x xs)
  show ?case
  proof (cases "f x s")
    case (Inl e)
    then have "bad x" using Cons.prems(1) [of x s] Cons.prems(3) by auto
    then show ?thesis using Inl by simp
  next
    case (Inr t)
    then have nb: "\<not> bad x" using Cons.prems(1) [of x s] Cons.prems(3) by auto
    have Pt: "P t" using Cons.prems(2) [of x s t] Cons.prems(3) Inr by simp
    have "(\<exists>e. foldE f xs t = Inl e) = (\<exists>x \<in> set xs. bad x)"
    proof (rule Cons.IH)
      show "(\<exists>e. f y u = Inl e) = bad y" if "y \<in> set xs" "P u" for y u
        using Cons.prems(1) [of y u] that by simp
      show "P u'" if "y \<in> set xs" "P u" "f y u = Inr u'" for y u u'
        using Cons.prems(2) [of y u u'] that by simp
      show "P t" by (rule Pt)
    qed
    then show ?thesis using Inr nb by simp
  qed
qed

lemma dom_newDeltaMap:
  "dom (map_of (fold (\<lambda>s m. AList.update s [] m) symbols m)) = dom (map_of m) \<union> set symbols"
  by (induction symbols arbitrary: m) (auto simp: update_conv')

lemma addEdge_fails_iff:
  assumes "map_of (stateNameMap a) f \<noteq> None" and "map_of (deltaMap a) c \<noteq> None"
  shows "(\<exists>e. addEdgeTo (ByName f) (ByName t) c (w, a) = Inl e) = (map_of (stateNameMap a) t = None)"
  using assms
  by (auto simp: addEdgeTo_def addEdge_def getEdge_def getState_def Let_def
           split: option.splits sum.splits)

lemma addEdgeTo_keys:
  assumes "addEdgeTo from to c (w, a) = Inr (w', a')"
  shows "stateNameMap a' = stateNameMap a"
    and "dom (map_of (deltaMap a)) \<subseteq> dom (map_of (deltaMap a'))"
proof -
  obtain e where r: "addEdge w a from to c = Inr (w', a', e)"
    using assms by (auto simp: addEdgeTo_def split: sum.splits)
  show "stateNameMap a' = stateNameMap a"
    using r by (cases rule: addEdge_cases) simp_all
  show "dom (map_of (deltaMap a)) \<subseteq> dom (map_of (deltaMap a'))"
    using r by (cases rule: addEdge_cases) (auto simp: update_conv')
qed

lemma signatureState_keys:
  "dom (map_of (stateNameMap (snd (signatureState finals d i wa))))
     = insert (toBase62 i d) (dom (map_of (stateNameMap (snd wa))))"
  "deltaMap (snd (signatureState finals d i wa)) = deltaMap (snd wa)"
proof -
  obtain w a where wa: "wa = (w, a)" by (cases wa) auto
  obtain w' a' s where r: "addState w a (toBase62 i d) (i = 0) (finals ! i = CHR ''1'') [] False = (w', a', s)"
    using prod_cases3 by blast
  have fn: "forcedName a (toBase62 i d) False = toBase62 i d" by (simp add: forcedName_def)
  have s: "signatureState finals d i (w, a) = (w', a')" using r by (simp add: signatureState_def)
  have "dom (map_of (stateNameMap a')) = insert (toBase62 i d) (dom (map_of (stateNameMap a)))"
    using r by (cases rule: addState_cases) (auto simp: fn update_conv' getStateByName_def)
  then show "dom (map_of (stateNameMap (snd (signatureState finals d i wa))))
     = insert (toBase62 i d) (dom (map_of (stateNameMap (snd wa))))"
    by (simp add: wa s)
  have "deltaMap a' = deltaMap a"
    using r by (cases rule: addState_cases) auto
  then show "deltaMap (snd (signatureState finals d i wa)) = deltaMap (snd wa)"
    by (simp add: wa s)
qed

lemma signatureStates_keys:
  "dom (map_of (stateNameMap (snd (fold (signatureState finals d) is wa))))
     = dom (map_of (stateNameMap (snd wa))) \<union> (\<lambda>k. toBase62 k d) ` set is"
  "deltaMap (snd (fold (signatureState finals d) is wa)) = deltaMap (snd wa)"
  by (induction "is" arbitrary: wa) (auto simp: signatureState_keys)

lemma signatureEdge_fails_iff:
  assumes "keysOK ((\<lambda>k. toBase62 k d) ` {..< n}) symbols wa" and "i < n" and "j < length symbols"
  shows "(\<exists>e. signatureEdge transitions symbols n d i j wa = Inl e) = badEntry transitions symbols n d i j"
proof -
  obtain w a where wa: "wa = (w, a)" by (cases wa) auto
  let ?to = "substr transitions (d * (i * length symbols + j)) d"
  have f: "map_of (stateNameMap a) (toBase62 i d) \<noteq> None"
    using assms(1,2) wa by (auto simp: keysOK_def)
  have "symbols ! j \<in> set symbols" using assms(3) by simp
  then have "symbols ! j \<in> dom (map_of (deltaMap a))"
    using assms(1) wa unfolding keysOK_def by auto
  then have c: "map_of (deltaMap a) (symbols ! j) \<noteq> None"
    by (simp add: domIff)
  have t: "(map_of (stateNameMap a) ?to = None) = (?to \<notin> (\<lambda>k. toBase62 k d) ` {..< n})"
    using assms(1) wa by (auto simp: keysOK_def)
  show ?thesis
  proof (cases "isTransition n ?to")
    case True
    then show ?thesis
      using addEdge_fails_iff [OF f c, of ?to w] t
      by (simp add: signatureEdge_def badEntry_def wa Let_def atLeast_upt)
  next
    case False
    then show ?thesis by (simp add: signatureEdge_def badEntry_def Let_def)
  qed
qed

lemma signatureEdge_keys:
  assumes "keysOK N symbols wa" and "signatureEdge transitions symbols n d i j wa = Inr wa'"
  shows "keysOK N symbols wa'"
proof (cases "isTransition n (substr transitions (d * (i * length symbols + j)) d)")
  case True
  obtain w a w' a' where wa: "wa = (w, a)" "wa' = (w', a')" by (cases wa, cases wa') auto
  have "addEdgeTo (ByName (toBase62 i d))
          (ByName (substr transitions (d * (i * length symbols + j)) d)) (symbols ! j) (w, a) = Inr (w', a')"
    using assms(2) True wa by (simp add: signatureEdge_def Let_def)
  from addEdgeTo_keys [OF this]
  have "stateNameMap a' = stateNameMap a" and "dom (map_of (deltaMap a)) \<subseteq> dom (map_of (deltaMap a'))"
    by blast+
  then show ?thesis
    using assms(1) unfolding keysOK_def wa by (simp only: snd_conv) blast
next
  case False
  then show ?thesis using assms by (simp add: signatureEdge_def Let_def)
qed

lemma signatureRow_fails_iff:
  assumes "keysOK ((\<lambda>k. toBase62 k d) ` {..< n}) symbols wa" and "i < n"
  shows "(\<exists>e. foldE (signatureEdge transitions symbols n d i) [0 ..< length symbols] wa = Inl e)
           = (\<exists>j < length symbols. badEntry transitions symbols n d i j)"
proof -
  have "(\<exists>e. foldE (signatureEdge transitions symbols n d i) [0 ..< length symbols] wa = Inl e)
          = (\<exists>j \<in> set [0 ..< length symbols]. badEntry transitions symbols n d i j)"
    by (rule foldE_fails_iff [where P = "keysOK ((\<lambda>k. toBase62 k d) ` {..< n}) symbols"])
       (auto simp: signatureEdge_fails_iff assms intro: signatureEdge_keys)
  then show ?thesis by auto
qed

lemma signatureRow_keys:
  assumes "keysOK N symbols wa"
    and "foldE (signatureEdge transitions symbols n d i) js wa = Inr wa'"
  shows "keysOK N symbols wa'"
  by (rule foldE_invariant [OF assms(2), where P = "keysOK N symbols"])
     (auto simp: assms(1) intro: signatureEdge_keys)

lemma signatureRows_fail_iff:
  assumes "keysOK ((\<lambda>k. toBase62 k d) ` {..< n}) symbols wa"
  shows "(\<exists>e. foldE (\<lambda>i. foldE (signatureEdge transitions symbols n d i) [0 ..< length symbols])
                  [0 ..< n] wa = Inl e)
           = (\<exists>i < n. \<exists>j < length symbols. badEntry transitions symbols n d i j)"
proof -
  have "(\<exists>e. foldE (\<lambda>i. foldE (signatureEdge transitions symbols n d i) [0 ..< length symbols])
                  [0 ..< n] wa = Inl e)
          = (\<exists>i \<in> set [0 ..< n]. \<exists>j < length symbols. badEntry transitions symbols n d i j)"
    by (rule foldE_fails_iff [where P = "keysOK ((\<lambda>k. toBase62 k d) ` {..< n}) symbols"])
       (auto simp: signatureRow_fails_iff assms intro: signatureRow_keys)
  then show ?thesis by auto
qed

lemma signatureStates_keysOK:
  "keysOK ((\<lambda>k. toBase62 k d) ` {..< n}) symbols
     (fold (signatureState finals d) [0 ..< n] (w, newAutomaton nm symbols))"
  by (auto simp: keysOK_def signatureStates_keys newAutomaton_def dom_newDeltaMap)

section \<open>Facts about determinization\<close>

text \<open>
  What the construction of states and edges leaves alone: the objects that exist keep every
  field but \<open>edgesOut\<close> and \<open>edgesIn\<close>.
\<close>

definition ext :: "world \<Rightarrow> world \<Rightarrow> bool" where
  "ext w w' \<longleftrightarrow>
     length (sts w) \<le> length (sts w') \<and> length (eds w) \<le> length (eds w')
     \<and> (\<forall>i < length (sts w).
           name (sts w' ! i) = name (sts w ! i) \<and> start (sts w' ! i) = start (sts w ! i)
           \<and> final (sts w' ! i) = final (sts w ! i) \<and> tag (sts w' ! i) = tag (sts w ! i)
           \<and> marked (sts w' ! i) = marked (sts w ! i))
     \<and> (\<forall>e < length (eds w). eds w' ! e = eds w ! e)"

lemma ext_refl: "ext w w"
  by (simp add: ext_def)

lemma ext_trans: "ext w1 w2 \<Longrightarrow> ext w2 w3 \<Longrightarrow> ext w1 w3"
  by (auto simp: ext_def)

lemma ext_updState_edgesOut: "ext w (updState w s (\<lambda>st. st\<lparr>edgesOut := g st\<rparr>))"
  by (simp add: ext_def updState_field)

lemma ext_updState_edgesIn: "ext w (updState w s (\<lambda>st. st\<lparr>edgesIn := g st\<rparr>))"
  by (simp add: ext_def updState_field)

lemma ext_addState:
  assumes "addState w a nm st fi tg forceNew = (w', a', s)"
  shows "ext w w'"
  using assms by (cases rule: addState_cases) (auto simp: ext_def nth_append)

lemma ext_newEdge: "ext w (w\<lparr>eds := eds w @ [ed]\<rparr>)"
  by (simp add: ext_def nth_append)

lemma ext_addEdge:
  assumes "addEdge w a from to symb = Inr (w', a', e)"
  shows "ext w w'"
  using assms
proof (cases rule: addEdge_cases)
  case existing
  then show ?thesis by (simp add: ext_refl)
next
  case (fresh f t dm)
  show ?thesis
    unfolding fresh(6)
    by (rule ext_trans [OF ext_newEdge ext_trans [OF ext_updState_edgesOut ext_updState_edgesIn]])
qed

lemma heapOK_addState:
  assumes "heapOK w" and "addState w a nm st fi tg forceNew = (w', a', s)"
  shows "heapOK w'"
  using assms(2)
proof (cases rule: addState_cases)
  case existing
  then show ?thesis using assms(1) by simp
next
  case fresh
  show ?thesis
    using assms(1) unfolding fresh(3) heapOK_iff
    by (auto simp: nth_append newState_def less_Suc_eq)
qed

lemma edgesOut_updState:
  "edgesOut (sts (updState w s (\<lambda>st. st\<lparr>edgesOut := g (edgesOut st)\<rparr>)) ! i)
     = (if i = s \<and> s < length (sts w) then g (edgesOut (sts w ! i)) else edgesOut (sts w ! i))"
  by (cases "s < length (sts w)") (auto simp: updState_def nth_list_update list_update_beyond)

lemma heapOK_addEdge:
  assumes "heapOK w" and "addEdge w a from to symb = Inr (w', a', e)"
    and "\<And>t. getState a to = Some t \<Longrightarrow> t < length (sts w)"
  shows "heapOK w'"
  using assms(2)
proof (cases rule: addEdge_cases)
  case existing
  then show ?thesis using assms(1) by simp
next
  case (fresh f t dm)
  have t: "t < length (sts w)" using assms(3) fresh(3) by simp
  let ?w1 = "w\<lparr>eds := eds w @ [\<lparr>source = f, sink = t, symbol = symb, re = None\<rparr>]\<rparr>"
  let ?w2 = "updState ?w1 f (\<lambda>s. s\<lparr>edgesOut := set_add e (edgesOut s)\<rparr>)"
  have eo: "edgesOut (sts w' ! i) = (if i = f \<and> f < length (sts w) then set_add e (edgesOut (sts w ! i))
                                      else edgesOut (sts w ! i))" for i
    unfolding fresh(6)
    by (simp add: updState_field [where g = edgesOut] edgesOut_updState [where g = "set_add e"])
  have len: "length (sts w') = length (sts w)" "eds w' = eds w @ [\<lparr>source = f, sink = t, symbol = symb, re = None\<rparr>]"
    unfolding fresh(6) by simp_all
  show ?thesis
    unfolding heapOK_iff
  proof (intro allI impI ballI)
    fix s x assume s: "s < length (sts w')" and x: "x \<in> set (edgesOut (sts w' ! s))"
    have "x = e \<or> x \<in> set (edgesOut (sts w ! s))"
      using x eo [of s] by (auto simp: set_add_def split: if_splits)
    then show "x < length (eds w') \<and> sink (eds w' ! x) < length (sts w')"
    proof
      assume "x = e"
      then show ?thesis using fresh(5) len t by (simp add: nth_append)
    next
      assume "x \<in> set (edgesOut (sts w ! s))"
      then have "x < length (eds w) \<and> sink (eds w ! x) < length (sts w)"
        using assms(1) s len by (auto simp: heapOK_iff)
      then show ?thesis using len by (simp add: nth_append)
    qed
  qed
qed


lemma foldE_total:
  assumes "P s" and "\<And>x t. x \<in> set xs \<Longrightarrow> P t \<Longrightarrow> \<exists>t'. f x t = Inr t' \<and> P t'"
  shows "\<exists>s'. foldE f xs s = Inr s' \<and> P s'"
  using assms
proof (induction xs arbitrary: s)
  case Nil
  then show ?case by simp
next
  case (Cons x xs)
  obtain t where t: "f x s = Inr t" "P t" using Cons.prems(2) [of x s] Cons.prems(1) by auto
  have "\<exists>s'. foldE f xs t = Inr s' \<and> P s'"
  proof (rule Cons.IH)
    show "P t" by (rule t(2))
    show "\<exists>t'. f y u = Inr t' \<and> P t'" if "y \<in> set xs" "P u" for y u
      using Cons.prems(2) [of y u] that by simp
  qed
  then show ?case using t(1) by simp
qed

lemma set_AList_update: "set (AList.update k v al) \<subseteq> insert (k, v) (set al)"
  by (induction al) auto

lemma set_fold_set_add: "set (fold set_add xs acc) = set xs \<union> set acc"
  by (induction xs arbitrary: acc) (auto simp: set_add_def)

lemma distinct_set_add: "distinct xs \<Longrightarrow> distinct (set_add x xs)"
  by (simp add: set_add_def)

lemma distinct_fold_set_add: "distinct acc \<Longrightarrow> distinct (fold set_add xs acc)"
  by (induction xs arbitrary: acc) (simp_all add: distinct_set_add)

text \<open>Every state that \<open>deltaMap\<close> lists as a successor is a constructed state.\<close>

definition targetsOK :: "world \<Rightarrow> automaton \<Rightarrow> bool" where
  "targetsOK w a =
     list_all (\<lambda>deltaMapSymbol. list_all (\<lambda>ts. list_all (\<lambda>t. t < length (sts w)) ts)
                 (map snd deltaMapSymbol))
       (map snd (deltaMap a))"

lemma targetsOK_iff:
  "targetsOK w a \<longleftrightarrow>
     (\<forall>c dm q ts t. (c, dm) \<in> set (deltaMap a) \<longrightarrow> (q, ts) \<in> set dm \<longrightarrow> t \<in> set ts
        \<longrightarrow> t < length (sts w))"
  by (fastforce simp: targetsOK_def list_all_iff)

lemma delta_valid:
  assumes "targetsOK w a"
  shows "set (delta a s c) \<subseteq> {..< length (sts w)}"
proof (cases "map_of (deltaMap a) c")
  case None
  then show ?thesis by (simp add: delta_def)
next
  case (Some dm)
  show ?thesis
  proof (cases "map_of dm s")
    case None
    then show ?thesis using Some by (simp add: delta_def)
  next
    case (Some ts)
    have "(c, dm) \<in> set (deltaMap a)" using \<open>map_of (deltaMap a) c = Some dm\<close> by (rule map_of_SomeD)
    moreover have "(s, ts) \<in> set dm" using Some by (rule map_of_SomeD)
    ultimately have "\<forall>t \<in> set ts. t < length (sts w)"
      using assms by (auto simp: targetsOK_iff)
    then show ?thesis
      using Some \<open>map_of (deltaMap a) c = Some dm\<close> by (auto simp: delta_def set_fold_set_add)
  qed
qed

lemma distinct_delta: "distinct (delta a s c)"
  by (auto simp: delta_def distinct_fold_set_add split: option.splits)

lemma deltaStar_single:
  "deltaStar a T [c] = fold (\<lambda>from acc. fold set_add (delta a from c) acc) T []"
  by (simp add: Let_def)

lemma set_fold_delta:
  "set (fold (\<lambda>from acc. fold set_add (delta a from c) acc) T acc)
     = (\<Union>s \<in> set T. set (delta a s c)) \<union> set acc"
  by (induction T arbitrary: acc) (auto simp: set_fold_set_add)

lemma distinct_fold_delta:
  "distinct acc \<Longrightarrow> distinct (fold (\<lambda>from acc. fold set_add (delta a from c) acc) T acc)"
  by (induction T arbitrary: acc) (simp_all add: distinct_fold_set_add)

lemma deltaStar_valid:
  assumes "targetsOK w a"
  shows "set (deltaStar a T [c]) \<subseteq> {..< length (sts w)}" and "distinct (deltaStar a T [c])"
proof -
  show "set (deltaStar a T [c]) \<subseteq> {..< length (sts w)}"
    unfolding deltaStar_single set_fold_delta using delta_valid [OF assms] by auto
  show "distinct (deltaStar a T [c])"
    unfolding deltaStar_single by (rule distinct_fold_delta) simp
qed

lemma setName_ext:
  assumes "ext w w'" and "set S \<subseteq> {..< length (sts w)}"
  shows "setName w' S = setName w S"
proof -
  have "map (\<lambda>s. name (sts w' ! s)) S = map (\<lambda>s. name (sts w ! s)) S"
    using assms by (auto simp: ext_def)
  then show ?thesis unfolding setName_def by (rule arg_cong)
qed

text \<open>The names that the subset construction can give to a state.\<close>

definition subsetNames :: "world \<Rightarrow> automaton \<Rightarrow> string set" where
  "subsetNames w nfa =
     insert (setName w (getStartStates w nfa))
       (setName w ` {xs. set xs \<subseteq> {..< length (sts w)} \<and> distinct xs})"

lemma finite_subsetNames: "finite (subsetNames w nfa)"
proof -
  let ?A = "{..< length (sts w)}"
  have "{xs. set xs \<subseteq> ?A \<and> distinct xs} \<subseteq> {xs. set xs \<subseteq> ?A \<and> length xs \<le> card ?A}"
  proof clarify
    fix xs :: "nat list" assume "set xs \<subseteq> ?A" "distinct xs"
    then have "card (set xs) \<le> card ?A" by (intro card_mono) auto
    then show "length xs \<le> card ?A" using \<open>distinct xs\<close> by (simp add: distinct_card)
  qed
  moreover have "finite {xs. set xs \<subseteq> ?A \<and> length xs \<le> card ?A}"
    by (rule finite_lists_length_le) simp
  ultimately have "finite {xs. set xs \<subseteq> ?A \<and> distinct xs}" by (rule finite_subset)
  then show ?thesis by (simp add: subsetNames_def)
qed

lemma deltaStar_name:
  assumes "targetsOK w nfa"
  shows "setName w (deltaStar nfa T [c]) \<in> subsetNames w nfa"
  using deltaStar_valid [OF assms, of T c] by (auto simp: subsetNames_def)

text \<open>The invariant of the loop of the subset construction.\<close>

definition detInv :: "world \<Rightarrow> automaton \<Rightarrow> world \<times> automaton \<times> nat list \<Rightarrow> bool" where
  "detInv w0 nfa st =
     (case st of (w, dfa, todo) \<Rightarrow>
        ext w0 w
        \<and> (\<forall>q \<in> set (states dfa). q < length (sts w))
        \<and> (\<forall>q \<in> set todo. q < length (sts w))
        \<and> set (alphabet nfa) \<subseteq> dom (map_of (deltaMap dfa))
        \<and> length (getStartStates w dfa) = 1
        \<and> dom (map_of (stateNameMap dfa)) \<subseteq> subsetNames w0 nfa
        \<and> (\<forall>c dm q ts. (c, dm) \<in> set (deltaMap dfa) \<longrightarrow> (q, ts) \<in> set dm \<longrightarrow>
              q < length (sts w) \<and> distinct ts
              \<and> (\<forall>t \<in> set ts. map_of (stateNameMap dfa)
                      (setName w0 (deltaStar nfa (tag (sts w ! q)) [c])) = Some t)))"

definition detMeasure :: "world \<Rightarrow> automaton \<Rightarrow> world \<times> automaton \<times> nat list \<Rightarrow> nat" where
  "detMeasure w0 nfa st =
     (case st of (w, dfa, todo) \<Rightarrow>
        2 * card (subsetNames w0 nfa - dom (map_of (stateNameMap dfa))) + length todo)"

lemma getStartStates_cong:
  assumes "\<forall>q \<in> set (states a). start (sts w' ! q) = start (sts w ! q)" and "states a' = states a"
  shows "getStartStates w' a' = getStartStates w a"
  unfolding getStartStates_def assms(2) using assms(1) by (intro filter_cong) auto

lemma detInv_addState:
  assumes inv: "detInv w0 nfa (w, dfa, todo)"
    and none: "getStateByName dfa key = None" and key: "key \<in> subsetNames w0 nfa"
    and r: "addState w dfa key False fi tg False = (w1, dfa1, nextState)"
  shows "detInv w0 nfa (w1, dfa1, set_add nextState todo)"
    and "map_of (stateNameMap dfa1) key = Some nextState"
    and "detMeasure w0 nfa (w1, dfa1, set_add nextState todo) \<le> detMeasure w0 nfa (w, dfa, todo)"
    and "length (sts w) \<le> length (sts w1)"
    and "\<forall>q < length (sts w). tag (sts w1 ! q) = tag (sts w ! q)"
proof -
  have fn: "forcedName dfa key False = key" by (simp add: forcedName_def)
  from r have n: "nextState = length (sts w)"
    and w1: "w1 = w\<lparr>sts := sts w @ [newState key False fi tg]\<rparr>"
    and d1: "dfa1 = dfa\<lparr>states := set_add nextState (states dfa),
                         stateNameMap := AList.update key nextState (stateNameMap dfa)\<rparr>"
    using none by (cases rule: addState_cases; simp add: fn)+
  have e: "ext w w1" by (rule ext_addState [OF r])
  have e0: "ext w0 w1" using inv e by (auto simp: detInv_def intro: ext_trans)
  have old: "\<forall>q \<in> set (states dfa). q < length (sts w)" using inv by (simp add: detInv_def)
  then have notin: "nextState \<notin> set (states dfa)" using n by auto
  have st1: "states dfa1 = states dfa @ [nextState]" using notin d1 by (simp add: set_add_def)
  have len: "length (sts w1) = Suc (length (sts w))" using w1 by simp
  have nth_old: "sts w1 ! q = sts w ! q" if "q < length (sts w)" for q
    using that w1 by (simp add: nth_append)
  have nth_new: "sts w1 ! nextState = newState key False fi tg" using n w1 by simp
  have "getStartStates w1 dfa1 = getStartStates w dfa"
    unfolding getStartStates_def st1 using old nth_old nth_new
    by (auto simp: newState_def intro: filter_cong)
  then have start: "length (getStartStates w1 dfa1) = 1" using inv by (simp add: detInv_def)
  have keys: "dom (map_of (stateNameMap dfa1)) = insert key (dom (map_of (stateNameMap dfa)))"
    using d1 by (simp add: update_conv')
  have lookup: "map_of (stateNameMap dfa1) k = Some t" if "map_of (stateNameMap dfa) k = Some t" for k t
    using that none d1 by (auto simp: update_conv' getStateByName_def)
  have K: "q < length (sts w1) \<and> distinct ts
           \<and> (\<forall>t \<in> set ts. map_of (stateNameMap dfa1)
                   (setName w0 (deltaStar nfa (tag (sts w1 ! q)) [c])) = Some t)"
    if "(c, dm) \<in> set (deltaMap dfa1)" "(q, ts) \<in> set dm" for c dm q ts
  proof -
    have "(c, dm) \<in> set (deltaMap dfa)" using that(1) d1 by simp
    then have k: "q < length (sts w)" "distinct ts"
      "\<forall>t \<in> set ts. map_of (stateNameMap dfa)
                   (setName w0 (deltaStar nfa (tag (sts w ! q)) [c])) = Some t"
      using inv that(2) unfolding detInv_def by blast+
    show ?thesis using k lookup nth_old [OF k(1)] len by auto
  qed
  show "detInv w0 nfa (w1, dfa1, set_add nextState todo)"
    unfolding detInv_def
  proof (simp only: prod.case, intro conjI allI impI)
    show "ext w0 w1" by (rule e0)
    show "\<forall>q \<in> set (states dfa1). q < length (sts w1)" using old st1 len n by auto
    show "\<forall>q \<in> set (set_add nextState todo). q < length (sts w1)"
      using inv len n by (auto simp: detInv_def set_add_def)
    show "set (alphabet nfa) \<subseteq> dom (map_of (deltaMap dfa1))" using inv d1 by (simp add: detInv_def)
    show "length (getStartStates w1 dfa1) = 1" by (rule start)
    show "dom (map_of (stateNameMap dfa1)) \<subseteq> subsetNames w0 nfa"
      using inv key keys by (auto simp: detInv_def)
  next
    fix c dm q ts assume "(c, dm) \<in> set (deltaMap dfa1)" "(q, ts) \<in> set dm"
    then show "q < length (sts w1)" "distinct ts"
      "\<forall>t \<in> set ts. map_of (stateNameMap dfa1)
                   (setName w0 (deltaStar nfa (tag (sts w1 ! q)) [c])) = Some t"
      using K by blast+
  qed
  show "map_of (stateNameMap dfa1) key = Some nextState" using d1 by (simp add: update_conv')
  have kn: "key \<notin> dom (map_of (stateNameMap dfa))" using none by (auto simp: getStateByName_def)
  have "subsetNames w0 nfa - dom (map_of (stateNameMap dfa1))
          = (subsetNames w0 nfa - dom (map_of (stateNameMap dfa))) - {key}"
    using keys by auto
  moreover have "key \<in> subsetNames w0 nfa - dom (map_of (stateNameMap dfa))" using key kn by simp
  ultimately have "card (subsetNames w0 nfa - dom (map_of (stateNameMap dfa1)))
          < card (subsetNames w0 nfa - dom (map_of (stateNameMap dfa)))"
    using finite_subsetNames [of w0 nfa]
      card_Diff1_less [of "subsetNames w0 nfa - dom (map_of (stateNameMap dfa))" key]
    by simp
  moreover have "length (set_add nextState todo) \<le> Suc (length todo)" by (simp add: set_add_def)
  ultimately show "detMeasure w0 nfa (w1, dfa1, set_add nextState todo) \<le> detMeasure w0 nfa (w, dfa, todo)"
    by (simp add: detMeasure_def)
  show "length (sts w) \<le> length (sts w1)" using len by simp
  show "\<forall>q < length (sts w). tag (sts w1 ! q) = tag (sts w ! q)" using nth_old by simp
qed


lemma detInv_addEdge:
  assumes inv: "detInv w0 nfa (w, dfa, todo)"
    and cur: "cur < length (sts w)" and c: "c \<in> set (alphabet nfa)"
    and nxt: "map_of (stateNameMap dfa) (setName w0 (deltaStar nfa (tag (sts w ! cur)) [c]))
                = Some nextState"
  shows "\<exists>w' dfa' e. addEdge w dfa (ByState cur) (ByState nextState) c = Inr (w', dfa', e)
           \<and> detInv w0 nfa (w', dfa', todo) \<and> length (sts w') = length (sts w)
           \<and> stateNameMap dfa' = stateNameMap dfa"
proof -
  obtain dm0 where dm0: "map_of (deltaMap dfa) c = Some dm0"
    using inv c by (auto simp: detInv_def)
  have "\<exists>r. addEdge w dfa (ByState cur) (ByState nextState) c = Inr r"
    using dm0 by (simp add: addEdge_def getEdge_def getState_def Let_def split: option.splits)
  then obtain w' dfa' e where r: "addEdge w dfa (ByState cur) (ByState nextState) c = Inr (w', dfa', e)"
    using prod_cases3 by metis
  have "detInv w0 nfa (w', dfa', todo) \<and> length (sts w') = length (sts w)
           \<and> stateNameMap dfa' = stateNameMap dfa"
    using r
  proof (cases rule: addEdge_cases)
    case existing
    then show ?thesis using inv by simp
  next
    case (fresh f t dm)
    have f: "f = cur" and t: "t = nextState" and dm: "dm = dm0"
      using fresh(2,3,4) dm0 by (simp_all add: getState_def)
    define targets where "targets = (case map_of dm0 cur of None \<Rightarrow> [] | Some ts \<Rightarrow> ts)"
    define X where "X = set_add nextState targets"
    have d': "dfa' = dfa\<lparr>edges := set_add e (edges dfa),
                         deltaMap := AList.update c (AList.update cur X dm0) (deltaMap dfa)\<rparr>"
      using fresh(7) by (simp add: f t dm X_def targets_def)
    have len: "length (sts w') = length (sts w)" unfolding fresh(6) by simp
    have tg: "tag (sts w' ! q) = tag (sts w ! q)" for q
      unfolding fresh(6) by (simp add: updState_field)
    have st: "start (sts w' ! q) = start (sts w ! q)" for q
      unfolding fresh(6) by (simp add: updState_field)
    have e0: "ext w0 w'" using inv ext_addEdge [OF r] by (auto simp: detInv_def intro: ext_trans)
    have c_in: "(c, dm0) \<in> set (deltaMap dfa)" using dm0 by (rule map_of_SomeD)
    have oldK: "q < length (sts w) \<and> distinct ts
           \<and> (\<forall>t \<in> set ts. map_of (stateNameMap dfa)
                   (setName w0 (deltaStar nfa (tag (sts w ! q)) [c'])) = Some t)"
      if "(c', dm') \<in> set (deltaMap dfa)" "(q, ts) \<in> set dm'" for c' dm' q ts
      using inv that unfolding detInv_def by blast
    have tK: "distinct targets \<and> (\<forall>t \<in> set targets. t = nextState)"
    proof (cases "map_of dm0 cur")
      case None
      then show ?thesis by (simp add: targets_def)
    next
      case (Some ts)
      have "(cur, ts) \<in> set dm0" using Some by (rule map_of_SomeD)
      then have "distinct ts \<and> (\<forall>t \<in> set ts. map_of (stateNameMap dfa)
                   (setName w0 (deltaStar nfa (tag (sts w ! cur)) [c])) = Some t)"
        using oldK [OF c_in] by blast
      then show ?thesis using Some nxt by (auto simp: targets_def)
    qed
    have XK: "distinct X \<and> (\<forall>t \<in> set X. t = nextState)"
      using tK by (auto simp: X_def set_add_def)
    have K: "q < length (sts w') \<and> distinct ts
           \<and> (\<forall>t \<in> set ts. map_of (stateNameMap dfa')
                   (setName w0 (deltaStar nfa (tag (sts w' ! q)) [c'])) = Some t)"
      if a: "(c', dm') \<in> set (deltaMap dfa')" and b: "(q, ts) \<in> set dm'" for c' dm' q ts
    proof -
      have "(c', dm') = (c, AList.update cur X dm0) \<or> (c', dm') \<in> set (deltaMap dfa)"
        using a set_AList_update [of c "AList.update cur X dm0" "deltaMap dfa"] d' by auto
      then show ?thesis
      proof
        assume new: "(c', dm') = (c, AList.update cur X dm0)"
        then have "(q, ts) = (cur, X) \<or> (q, ts) \<in> set dm0"
          using b set_AList_update [of cur X dm0] by auto
        then show ?thesis
        proof
          assume "(q, ts) = (cur, X)"
          then show ?thesis using XK nxt cur len tg new d' by auto
        next
          assume "(q, ts) \<in> set dm0"
          then show ?thesis using oldK [OF c_in] new len tg d' by auto
        qed
      next
        assume "(c', dm') \<in> set (deltaMap dfa)"
        then show ?thesis using oldK b len tg d' by auto
      qed
    qed
    have "getStartStates w' dfa' = getStartStates w dfa"
      by (rule getStartStates_cong) (simp_all add: st d')
    then have start: "length (getStartStates w' dfa') = 1" using inv by (simp add: detInv_def)
    have "detInv w0 nfa (w', dfa', todo)"
      unfolding detInv_def
    proof (simp only: prod.case, intro conjI allI impI)
      show "ext w0 w'" by (rule e0)
      show "\<forall>q \<in> set (states dfa'). q < length (sts w')" using inv len d' by (simp add: detInv_def)
      show "\<forall>q \<in> set todo. q < length (sts w')" using inv len by (simp add: detInv_def)
      show "set (alphabet nfa) \<subseteq> dom (map_of (deltaMap dfa'))"
        using inv d' by (auto simp: detInv_def update_conv')
      show "length (getStartStates w' dfa') = 1" by (rule start)
      show "dom (map_of (stateNameMap dfa')) \<subseteq> subsetNames w0 nfa"
        using inv d' by (simp add: detInv_def)
    next
      fix c' dm' q ts assume "(c', dm') \<in> set (deltaMap dfa')" "(q, ts) \<in> set dm'"
      then show "q < length (sts w')" "distinct ts"
        "\<forall>t \<in> set ts. map_of (stateNameMap dfa')
                   (setName w0 (deltaStar nfa (tag (sts w' ! q)) [c'])) = Some t"
        using K by blast+
    qed
    then show ?thesis using len d' by simp
  qed
  then show ?thesis using r by blast
qed

lemma detSymbol_step:
  assumes ok: "targetsOK w0 nfa" and inv: "detInv w0 nfa (w, dfa, todo)"
    and cur: "cur < length (sts w)" and c: "c \<in> set (alphabet nfa)"
  shows "\<exists>w' dfa' todo'. detSymbol nfa cur c (w, dfa, todo) = Inr (w', dfa', todo')
           \<and> detInv w0 nfa (w', dfa', todo') \<and> length (sts w) \<le> length (sts w')
           \<and> detMeasure w0 nfa (w', dfa', todo') \<le> detMeasure w0 nfa (w, dfa, todo)"
proof -
  let ?S = "deltaStar nfa (tag (sts w ! cur)) [c]"
  have e: "ext w0 w" using inv by (simp add: detInv_def)
  have key: "setName w ?S = setName w0 ?S"
    by (rule setName_ext [OF e deltaStar_valid(1) [OF ok]])
  have kin: "setName w0 ?S \<in> subsetNames w0 nfa" by (rule deltaStar_name [OF ok])
  show ?thesis
  proof (cases "getStateByName dfa (setName w0 ?S)")
    case (Some nextState)
    then have nxt: "map_of (stateNameMap dfa) (setName w0 ?S) = Some nextState"
      by (simp add: getStateByName_def)
    obtain w' dfa' e where r: "addEdge w dfa (ByState cur) (ByState nextState) c = Inr (w', dfa', e)"
      and i: "detInv w0 nfa (w', dfa', todo)" and l: "length (sts w') = length (sts w)"
      and m: "stateNameMap dfa' = stateNameMap dfa"
      using detInv_addEdge [OF inv cur c nxt] by blast
    have "detSymbol nfa cur c (w, dfa, todo) = Inr (w', dfa', todo)"
      using Some r by (simp add: detSymbol_def Let_def key del: deltaStar.simps)
    then show ?thesis using i l m by (simp add: detMeasure_def)
  next
    case None
    obtain w1 dfa1 nextState where
      a: "addState w dfa (setName w0 ?S) False (list_ex (\<lambda>s. final (sts w ! s)) ?S) ?S False
            = (w1, dfa1, nextState)"
      using prod_cases3 by blast
    note A = detInv_addState [OF inv None kin a]
    have cur1: "cur < length (sts w1)" using cur A(4) by simp
    have tg: "tag (sts w1 ! cur) = tag (sts w ! cur)" using A(5) cur by simp
    have nxt: "map_of (stateNameMap dfa1) (setName w0 (deltaStar nfa (tag (sts w1 ! cur)) [c]))
                 = Some nextState"
      using A(2) tg by simp
    obtain w' dfa' e where r: "addEdge w1 dfa1 (ByState cur) (ByState nextState) c = Inr (w', dfa', e)"
      and i: "detInv w0 nfa (w', dfa', set_add nextState todo)" and l: "length (sts w') = length (sts w1)"
      and m: "stateNameMap dfa' = stateNameMap dfa1"
      using detInv_addEdge [OF A(1) cur1 c nxt] by blast
    have "detSymbol nfa cur c (w, dfa, todo) = Inr (w', dfa', set_add nextState todo)"
      using None a r by (simp add: detSymbol_def Let_def key del: deltaStar.simps)
    moreover have "detMeasure w0 nfa (w', dfa', set_add nextState todo) \<le> detMeasure w0 nfa (w, dfa, todo)"
      using A(3) m by (simp add: detMeasure_def)
    ultimately show ?thesis using i l A(4) by simp
  qed
qed

lemma detLoop_total:
  assumes ok: "targetsOK w0 nfa" and inv: "detInv w0 nfa st"
  shows "\<exists>w' dfa'. detLoop nfa st = Some (Inr (w', dfa')) \<and> detInv w0 nfa (w', dfa', [])"
  using inv
proof (induction "detMeasure w0 nfa st" arbitrary: st rule: less_induct)
  case less
  obtain w dfa todo where st: "st = (w, dfa, todo)" using prod_cases3 by blast
  show ?case
  proof (cases todo)
    case Nil
    have "detLoop nfa st = Some (Inr (w, dfa))"
      by (subst detLoop.simps) (simp add: st Nil)
    then show ?thesis using less.prems st Nil by simp
  next
    case (Cons cur rest)
    have cur: "cur < length (sts w)" using less.prems st Cons by (simp add: detInv_def)
    have inv0: "detInv w0 nfa (w, dfa, rest)" using less.prems st Cons by (simp add: detInv_def)
    define P where "P t \<longleftrightarrow> detInv w0 nfa t \<and> cur < length (sts (fst t))
                      \<and> detMeasure w0 nfa t \<le> detMeasure w0 nfa (w, dfa, rest)" for t
    have "\<exists>st'. foldE (detSymbol nfa cur) (alphabet nfa) (w, dfa, rest) = Inr st' \<and> P st'"
    proof (rule foldE_total)
      show "P (w, dfa, rest)" using inv0 cur by (simp add: P_def)
      show "\<exists>t'. detSymbol nfa cur c t = Inr t' \<and> P t'" if "c \<in> set (alphabet nfa)" "P t" for c t
      proof -
        obtain w1 d1 todo1 where t: "t = (w1, d1, todo1)" using prod_cases3 by blast
        have "detInv w0 nfa (w1, d1, todo1)" "cur < length (sts w1)"
          using that(2) t by (simp_all add: P_def)
        from detSymbol_step [OF ok this that(1)] show ?thesis
          using that(2) t by (fastforce simp: P_def)
      qed
    qed
    then obtain st' where f: "foldE (detSymbol nfa cur) (alphabet nfa) (w, dfa, rest) = Inr st'"
      and p: "P st'" by blast
    have "detMeasure w0 nfa st' < detMeasure w0 nfa st"
      using p st Cons by (simp add: P_def detMeasure_def)
    moreover have "detInv w0 nfa st'" using p by (simp add: P_def)
    ultimately have "\<exists>w' dfa'. detLoop nfa st' = Some (Inr (w', dfa')) \<and> detInv w0 nfa (w', dfa', [])"
      by (rule less.hyps)
    moreover have "detLoop nfa st = detLoop nfa st'"
      by (subst detLoop.simps) (simp add: st Cons f)
    ultimately show ?thesis by simp
  qed
qed

lemma length_le_one:
  assumes "distinct ts" and "\<forall>t \<in> set ts. f = Some t"
  shows "length ts \<le> 1"
proof -
  have "set ts \<subseteq> {the f}" using assms(2) by auto
  then have "card (set ts) \<le> card {the f}" by (intro card_mono) auto
  then show ?thesis using assms(1) by (simp add: distinct_card)
qed

lemma detInv_isDeterministic:
  assumes "detInv w0 nfa (w, dfa, todo)"
  shows "isDeterministic w dfa"
proof -
  have "length ts \<le> 1" if "(c, dm) \<in> set (deltaMap dfa)" "(q, ts) \<in> set dm" for c dm q ts
  proof -
    have "distinct ts \<and> (\<forall>t \<in> set ts. map_of (stateNameMap dfa)
                   (setName w0 (deltaStar nfa (tag (sts w ! q)) [c])) = Some t)"
      using assms that unfolding detInv_def by blast
    then show ?thesis using length_le_one by blast
  qed
  then have "list_all (\<lambda>deltaMapSymbol. \<not> list_ex (\<lambda>s. length s > 1) (map snd deltaMapSymbol))
             (map snd (deltaMap dfa))"
    by (fastforce simp: list_all_iff list_ex_iff)
  then show ?thesis using assms by (simp add: isDeterministic_def detInv_def)
qed

lemma set_newDeltaMap:
  "set (fold (\<lambda>s m. AList.update s [] m) symbols m) \<subseteq> set m \<union> {(c, dm). dm = []}"
proof (induction symbols arbitrary: m)
  case Nil
  then show ?case by simp
next
  case (Cons s symbols)
  show ?case using Cons.IH [of "AList.update s [] m"] set_AList_update [of s "[]" m] by auto
qed

lemma subsetConstruction_deterministic:
  assumes ok: "targetsOK w nfa"
  shows "\<exists>w' dfa. subsetConstruction w nfa = Some (Inr (w', dfa)) \<and> isDeterministic w' dfa"
proof -
  let ?dfa = "newAutomaton (aname nfa @ ''-dfa'') (alphabet nfa)"
  let ?S = "getStartStates w nfa"
  obtain w1 dfa1 s0 where
    a: "addState w ?dfa (setName w ?S) True (list_ex (\<lambda>s. final (sts w ! s)) ?S) ?S False = (w1, dfa1, s0)"
    using prod_cases3 by blast
  have fn: "forcedName ?dfa (setName w ?S) False = setName w ?S" by (simp add: forcedName_def)
  have none: "getStateByName ?dfa (setName w ?S) = None"
    by (simp add: getStateByName_def newAutomaton_def)
  from a have n: "s0 = length (sts w)"
    and w1: "w1 = w\<lparr>sts := sts w @ [newState (setName w ?S) True (list_ex (\<lambda>s. final (sts w ! s)) ?S) ?S]\<rparr>"
    and d1: "dfa1 = ?dfa\<lparr>states := set_add s0 (states ?dfa),
                         stateNameMap := AList.update (setName w ?S) s0 (stateNameMap ?dfa)\<rparr>"
    using none by (cases rule: addState_cases; simp add: fn)+
  have st: "states dfa1 = [s0]" using d1 by (simp add: newAutomaton_def set_add_def)
  have nm: "stateNameMap dfa1 = [(setName w ?S, s0)]" using d1 by (simp add: newAutomaton_def)
  have dl: "deltaMap dfa1 = fold (\<lambda>s m. AList.update s [] m) (alphabet nfa) []"
    using d1 by (simp add: newAutomaton_def)
  have inv: "detInv w nfa (w1, dfa1, [s0])"
    unfolding detInv_def
  proof (simp only: prod.case, intro conjI allI impI)
    show "ext w w1" by (rule ext_addState [OF a])
    show "\<forall>q \<in> set (states dfa1). q < length (sts w1)" using st n w1 by simp
    show "\<forall>q \<in> set [s0]. q < length (sts w1)" using n w1 by simp
    show "set (alphabet nfa) \<subseteq> dom (map_of (deltaMap dfa1))" by (simp add: dl dom_newDeltaMap)
    show "length (getStartStates w1 dfa1) = 1"
      using st n w1 by (simp add: getStartStates_def newState_def)
    show "dom (map_of (stateNameMap dfa1)) \<subseteq> subsetNames w nfa" by (simp add: nm subsetNames_def)
  next
    fix c dm q ts assume "(c, dm) \<in> set (deltaMap dfa1)" "(q, ts) \<in> set dm"
    then have False using set_newDeltaMap [of "alphabet nfa" "[]"] dl by auto
    then show "q < length (sts w1)" "distinct ts"
      "\<forall>t \<in> set ts. map_of (stateNameMap dfa1)
                   (setName w (deltaStar nfa (tag (sts w1 ! q)) [c])) = Some t"
      by blast+
  qed
  obtain w' dfa' where l: "detLoop nfa (w1, dfa1, [s0]) = Some (Inr (w', dfa'))"
    and i: "detInv w nfa (w', dfa', [])"
    using detLoop_total [OF ok inv] by blast
  have "subsetConstruction w nfa = Some (Inr (w', dfa'))"
    using a l by (simp add: subsetConstruction_def Let_def)
  then show ?thesis using detInv_isDeterministic [OF i] by blast
qed


text \<open>
  An automaton under construction whose references all point to constructed objects.
\<close>

definition builtOK :: "world \<Rightarrow> automaton \<Rightarrow> bool" where
  "builtOK w ar \<longleftrightarrow>
     heapOK w \<and> (\<forall>q \<in> set (states ar). q < length (sts w))
     \<and> (\<forall>k q. map_of (stateNameMap ar) k = Some q \<longrightarrow> q < length (sts w))
     \<and> targetsOK w ar"

lemma targetsOK_newAutomaton: "targetsOK w (newAutomaton nm symbols)"
  using set_newDeltaMap [of symbols "[]"]
  by (fastforce simp: targetsOK_iff newAutomaton_def)

lemma builtOK_newAutomaton: "heapOK w \<Longrightarrow> builtOK w (newAutomaton nm symbols)"
  by (simp add: builtOK_def targetsOK_newAutomaton) (simp add: newAutomaton_def)

lemma targetsOK_mono:
  assumes "targetsOK w a" and "length (sts w) \<le> length (sts w')" and "deltaMap a' = deltaMap a"
  shows "targetsOK w' a'"
  using assms unfolding targetsOK_iff by (metis less_le_trans)

lemma builtOK_addState:
  assumes ok: "builtOK w ar" and r: "addState w ar nm st fi tg False = (w', ar', s)"
  shows "builtOK w' ar'" and "ext w w'"
    and "dom (map_of (stateNameMap ar')) = insert nm (dom (map_of (stateNameMap ar)))"
    and "deltaMap ar' = deltaMap ar" and "edges ar' = edges ar" and "alphabet ar' = alphabet ar"
proof -
  have fn: "forcedName ar nm False = nm" by (simp add: forcedName_def)
  show "ext w w'" by (rule ext_addState [OF r])
  have h: "heapOK w'" using ok heapOK_addState [OF _ r] by (simp add: builtOK_def)
  show d: "deltaMap ar' = deltaMap ar" using r by (cases rule: addState_cases) simp_all
  show "edges ar' = edges ar" using r by (cases rule: addState_cases) simp_all
  show "alphabet ar' = alphabet ar" using r by (cases rule: addState_cases) simp_all
  show "dom (map_of (stateNameMap ar')) = insert nm (dom (map_of (stateNameMap ar)))"
    using r by (cases rule: addState_cases) (auto simp: fn update_conv' getStateByName_def)
  have len: "length (sts w) \<le> length (sts w')" using \<open>ext w w'\<close> by (simp add: ext_def)
  have t: "targetsOK w' ar'" using ok targetsOK_mono [OF _ len d] by (simp add: builtOK_def)
  have "(\<forall>q \<in> set (states ar'). q < length (sts w'))
        \<and> (\<forall>k q. map_of (stateNameMap ar') k = Some q \<longrightarrow> q < length (sts w'))"
    using r
  proof (cases rule: addState_cases)
    case existing
    then show ?thesis using ok by (simp add: builtOK_def)
  next
    case fresh
    show ?thesis
      using ok unfolding fresh(3,4) builtOK_def
      by (auto simp: fresh(2) set_add_def update_conv' less_Suc_eq split: if_splits)
  qed
  then show "builtOK w' ar'" using h t by (simp add: builtOK_def)
qed

lemma builtOK_addEdge:
  assumes ok: "builtOK w ar"
    and f: "map_of (stateNameMap ar) from \<noteq> None" and t: "map_of (stateNameMap ar) to \<noteq> None"
    and c: "map_of (deltaMap ar) c \<noteq> None"
  shows "\<exists>w' ar' e. addEdge w ar (ByName from) (ByName to) c = Inr (w', ar', e)
           \<and> builtOK w' ar' \<and> ext w w' \<and> stateNameMap ar' = stateNameMap ar
           \<and> states ar' = states ar \<and> alphabet ar' = alphabet ar
           \<and> dom (map_of (deltaMap ar)) \<subseteq> dom (map_of (deltaMap ar'))"
proof -
  have "\<exists>r. addEdge w ar (ByName from) (ByName to) c = Inr r"
    using f t c by (auto simp: addEdge_def getEdge_def getState_def Let_def split: option.splits)
  then obtain w' ar' e where r: "addEdge w ar (ByName from) (ByName to) c = Inr (w', ar', e)"
    using prod_cases3 by metis
  have e: "ext w w'" by (rule ext_addEdge [OF r])
  have tv: "q < length (sts w)" if "getState ar (ByName to) = Some q" for q
    using that ok by (simp add: getState_def builtOK_def)
  have h: "heapOK w'" using ok heapOK_addEdge [OF _ r tv] by (simp add: builtOK_def)
  have rest: "stateNameMap ar' = stateNameMap ar \<and> states ar' = states ar
        \<and> alphabet ar' = alphabet ar \<and> length (sts w') = length (sts w)
        \<and> dom (map_of (deltaMap ar)) \<subseteq> dom (map_of (deltaMap ar')) \<and> targetsOK w' ar'"
    using r
  proof (cases rule: addEdge_cases)
    case existing
    then show ?thesis using ok by (simp add: builtOK_def)
  next
    case (fresh fs ts dm)
    define X where "X = set_add ts (case map_of dm fs of None \<Rightarrow> [] | Some x \<Rightarrow> x)"
    have d': "deltaMap ar' = AList.update c (AList.update fs X dm) (deltaMap ar)"
      unfolding fresh(7) X_def by simp
    have len: "length (sts w') = length (sts w)" unfolding fresh(6) by simp
    have tsv: "ts < length (sts w)" using tv fresh(3) by simp
    have old: "x < length (sts w)"
      if "(c', dm') \<in> set (deltaMap ar)" "(q, xs) \<in> set dm'" "x \<in> set xs" for c' dm' q xs x
      using ok that unfolding builtOK_def targetsOK_iff by blast
    have c_in: "(c, dm) \<in> set (deltaMap ar)" using fresh(4) by (rule map_of_SomeD)
    have Xv: "x < length (sts w)" if "x \<in> set X" for x
    proof (cases "map_of dm fs")
      case None
      then show ?thesis using that tsv by (simp add: X_def set_add_def)
    next
      case (Some xs)
      have "(fs, xs) \<in> set dm" using Some by (rule map_of_SomeD)
      then show ?thesis using that tsv Some old [OF c_in] by (auto simp: X_def set_add_def split: if_splits)
    qed
    have "targetsOK w' ar'"
      unfolding targetsOK_iff
    proof (intro allI impI)
      fix c' dm' q xs x
      assume a: "(c', dm') \<in> set (deltaMap ar')" and b: "(q, xs) \<in> set dm'" and x: "x \<in> set xs"
      have "(c', dm') = (c, AList.update fs X dm) \<or> (c', dm') \<in> set (deltaMap ar)"
        using a d' set_AList_update [of c "AList.update fs X dm" "deltaMap ar"] by auto
      then have "x < length (sts w)"
      proof
        assume "(c', dm') = (c, AList.update fs X dm)"
        then have "(q, xs) = (fs, X) \<or> (q, xs) \<in> set dm"
          using b set_AList_update [of fs X dm] by auto
        then show ?thesis using Xv x old [OF c_in] by auto
      next
        assume "(c', dm') \<in> set (deltaMap ar)"
        then show ?thesis using old b x by blast
      qed
      then show "x < length (sts w')" using len by simp
    qed
    then show ?thesis using len d' unfolding fresh(7) by (auto simp: update_conv')
  qed
  have "builtOK w' ar'"
    using ok h rest by (simp add: builtOK_def)
  then show ?thesis using r e rest by blast
qed

lemma copyState_step:
  assumes ok: "builtOK w ar"
  shows "\<exists>w' ar'. copyState name st fi tg s (w, ar) = (w', ar')
           \<and> builtOK w' ar' \<and> ext w w'
           \<and> dom (map_of (stateNameMap ar')) = insert (name (sts w ! s)) (dom (map_of (stateNameMap ar)))
           \<and> deltaMap ar' = deltaMap ar \<and> edges ar' = edges ar \<and> alphabet ar' = alphabet ar"
proof -
  obtain w' ar' q where
    r: "addState w ar (name (sts w ! s)) (st (sts w ! s)) (fi (sts w ! s)) (tg (sts w ! s)) False = (w', ar', q)"
    using prod_cases3 by blast
  have "copyState name st fi tg s (w, ar) = (w', ar')" using r by (simp add: copyState_def)
  then show ?thesis using builtOK_addState [OF ok r] by blast
qed

lemma copyStates_fold:
  assumes "builtOK w ar" and "\<forall>s \<in> set xs. s < length (sts w)"
  shows "\<exists>w' ar'. fold (copyState name st fi tg) xs (w, ar) = (w', ar')
           \<and> builtOK w' ar' \<and> ext w w'
           \<and> dom (map_of (stateNameMap ar'))
               = dom (map_of (stateNameMap ar)) \<union> (\<lambda>s. name (sts w ! s)) ` set xs
           \<and> deltaMap ar' = deltaMap ar \<and> edges ar' = edges ar \<and> alphabet ar' = alphabet ar"
  using assms
proof (induction xs arbitrary: w ar)
  case Nil
  then show ?case by (simp add: ext_refl)
next
  case (Cons x xs)
  obtain w1 ar1 where s1: "copyState name st fi tg x (w, ar) = (w1, ar1)"
    and b1: "builtOK w1 ar1" and e1: "ext w w1"
    and d1: "dom (map_of (stateNameMap ar1)) = insert (name (sts w ! x)) (dom (map_of (stateNameMap ar)))"
    and r1: "deltaMap ar1 = deltaMap ar" "edges ar1 = edges ar" "alphabet ar1 = alphabet ar"
    using copyState_step [OF Cons.prems(1), of st fi tg x] by blast
  have v1: "\<forall>s \<in> set xs. s < length (sts w1)" using Cons.prems(2) e1 by (auto simp: ext_def)
  obtain w' ar' where s2: "fold (copyState name st fi tg) xs (w1, ar1) = (w', ar')"
    and b2: "builtOK w' ar'" and e2: "ext w1 w'"
    and d2: "dom (map_of (stateNameMap ar'))
               = dom (map_of (stateNameMap ar1)) \<union> (\<lambda>s. name (sts w1 ! s)) ` set xs"
    and r2: "deltaMap ar' = deltaMap ar1" "edges ar' = edges ar1" "alphabet ar' = alphabet ar1"
    using Cons.IH [OF b1 v1] by blast
  have "(\<lambda>s. name (sts w1 ! s)) ` set xs = (\<lambda>s. name (sts w ! s)) ` set xs"
    using Cons.prems(2) e1 by (auto simp: ext_def intro!: image_cong)
  then have "dom (map_of (stateNameMap ar'))
               = dom (map_of (stateNameMap ar)) \<union> (\<lambda>s. name (sts w ! s)) ` set (x # xs)"
    using d1 d2 by auto
  then show ?case using s1 s2 b2 ext_trans [OF e1 e2] r1 r2 by simp
qed

lemma copyEdge_step:
  assumes ok: "builtOK w ar"
    and f: "fromName w (eds w ! e) \<in> dom (map_of (stateNameMap ar))"
    and t: "toName w (eds w ! e) \<in> dom (map_of (stateNameMap ar))"
    and c: "symbol (eds w ! e) \<in> dom (map_of (deltaMap ar))"
  shows "\<exists>w' ar'. copyEdge fromName toName e (w, ar) = Inr (w', ar')
           \<and> builtOK w' ar' \<and> ext w w' \<and> stateNameMap ar' = stateNameMap ar
           \<and> states ar' = states ar \<and> alphabet ar' = alphabet ar
           \<and> dom (map_of (deltaMap ar)) \<subseteq> dom (map_of (deltaMap ar'))"
proof -
  obtain w' ar' x where
    r: "addEdge w ar (ByName (fromName w (eds w ! e))) (ByName (toName w (eds w ! e)))
          (symbol (eds w ! e)) = Inr (w', ar', x)"
    and rest: "builtOK w' ar'" "ext w w'" "stateNameMap ar' = stateNameMap ar"
      "states ar' = states ar" "alphabet ar' = alphabet ar"
      "dom (map_of (deltaMap ar)) \<subseteq> dom (map_of (deltaMap ar'))"
    using builtOK_addEdge [OF ok, of "fromName w (eds w ! e)" "toName w (eds w ! e)" "symbol (eds w ! e)"]
      f t c by (auto simp: domIff)
  have "copyEdge fromName toName e (w, ar) = Inr (w', ar')" using r by (simp add: copyEdge_def)
  then show ?thesis using rest by blast
qed


lemma foldE_total_set:
  assumes "P A s"
    and "\<And>x B t. x \<in> set xs \<Longrightarrow> P B t \<Longrightarrow> \<exists>t'. f x t = Inr t' \<and> P (insert x B) t'"
  shows "\<exists>s'. foldE f xs s = Inr s' \<and> P (A \<union> set xs) s'"
  using assms
proof (induction xs arbitrary: s A)
  case Nil
  then show ?case by simp
next
  case (Cons x xs)
  obtain t where t: "f x s = Inr t" "P (insert x A) t"
    using Cons.prems(2) [of x A s] Cons.prems(1) by auto
  have "\<exists>s'. foldE f xs t = Inr s' \<and> P (insert x A \<union> set xs) s'"
  proof (rule Cons.IH)
    show "P (insert x A) t" by (rule t(2))
    show "\<exists>t'. f y u = Inr t' \<and> P (insert y B) t'" if "y \<in> set xs" "P B u" for y B u
      using Cons.prems(2) [of y B u] that by simp
  qed
  then show ?case using t(1) by simp
qed

text \<open>The depth-first search changes marks and nothing else.\<close>

definition sameButMarks :: "world \<Rightarrow> world \<Rightarrow> bool" where
  "sameButMarks w w' \<longleftrightarrow>
     length (sts w') = length (sts w) \<and> eds w' = eds w
     \<and> (\<forall>i. name (sts w' ! i) = name (sts w ! i) \<and> edgesOut (sts w' ! i) = edgesOut (sts w ! i)
            \<and> start (sts w' ! i) = start (sts w ! i) \<and> final (sts w' ! i) = final (sts w ! i)
            \<and> tag (sts w' ! i) = tag (sts w ! i))"

lemma sameButMarks_refl: "sameButMarks w w"
  by (simp add: sameButMarks_def)

lemma sameButMarks_trans: "sameButMarks w1 w2 \<Longrightarrow> sameButMarks w2 w3 \<Longrightarrow> sameButMarks w1 w3"
  by (simp add: sameButMarks_def)

lemma sameButMarks_mark: "sameButMarks w (mark w s)"
  by (simp add: sameButMarks_def mark_def updState_field)

lemma sameButMarks_heapOK: "heapOK w \<Longrightarrow> sameButMarks w w' \<Longrightarrow> heapOK w'"
  by (simp add: heapOK_iff sameButMarks_def)

lemma sameButMarks_builtOK: "builtOK w ar \<Longrightarrow> sameButMarks w w' \<Longrightarrow> builtOK w' ar"
  unfolding builtOK_def
  by (metis sameButMarks_heapOK sameButMarks_def targetsOK_mono order_refl)

lemma dfsEdges_total:
  assumes "heapOK w"
    and "\<forall>e \<in> set pending. e < length (eds w) \<and> sink (eds w ! e) < length (sts w)"
  shows "\<exists>w'. dfsEdges w pending = Inr w' \<and> sameButMarks w w'"
  using assms
proof (induction w pending rule: dfsEdges.induct)
  case (1 w)
  then show ?case by (simp add: sameButMarks_refl)
next
  case (2 w e pending)
  let ?t = "sink (eds w ! e)"
  have v: "e < length (eds w)" "?t < length (sts w)" using "2.prems"(2) by auto
  show ?case
  proof (cases "marked (sts w ! ?t)")
    case True
    then show ?thesis using "2.IH"(1) "2.prems" v by simp
  next
    case False
    have sm: "sameButMarks w (mark w ?t)" by (rule sameButMarks_mark)
    have ok': "heapOK (mark w ?t)" by (rule sameButMarks_heapOK [OF "2.prems"(1) sm])
    have "\<forall>e' \<in> set (edgesOut (sts w ! ?t)). e' < length (eds w) \<and> sink (eds w ! e') < length (sts w)"
      using "2.prems"(1) v by (auto simp: heapOK_iff)
    then have pend: "\<forall>e' \<in> set (edgesOut (sts w ! ?t) @ pending).
                e' < length (eds (mark w ?t)) \<and> sink (eds (mark w ?t) ! e') < length (sts (mark w ?t))"
      using "2.prems"(2) sm by (auto simp: sameButMarks_def)
    obtain w' where "dfsEdges (mark w ?t) (edgesOut (sts w ! ?t) @ pending) = Inr w'"
      and "sameButMarks (mark w ?t) w'"
      using "2.IH"(2) [OF _ False ok' pend] v by auto
    then show ?thesis using v False sameButMarks_trans [OF sm] by simp
  qed
qed

lemma dfs_total:
  assumes "heapOK w" and "\<forall>s \<in> set sources. s < length (sts w)"
  shows "\<exists>w'. dfs w sources = Inr w' \<and> sameButMarks w w'"
  unfolding dfs_def
proof (rule foldE_total)
  show "sameButMarks w w" by (rule sameButMarks_refl)
  show "\<exists>t'. dfsEdges (mark t s) (edgesOut (sts t ! s)) = Inr t' \<and> sameButMarks w t'"
    if "s \<in> set sources" "sameButMarks w t" for s t
  proof -
    have ht: "heapOK t" by (rule sameButMarks_heapOK [OF assms(1) that(2)])
    have sv: "s < length (sts t)" using assms(2) that by (simp add: sameButMarks_def)
    have sm: "sameButMarks t (mark t s)" by (rule sameButMarks_mark)
    have hm: "heapOK (mark t s)" by (rule sameButMarks_heapOK [OF ht sm])
    have "\<forall>e \<in> set (edgesOut (sts t ! s)). e < length (eds t) \<and> sink (eds t ! e) < length (sts t)"
      using ht sv by (auto simp: heapOK_iff)
    then have "\<forall>e \<in> set (edgesOut (sts t ! s)).
        e < length (eds (mark t s)) \<and> sink (eds (mark t s) ! e) < length (sts (mark t s))"
      using sm by (simp add: sameButMarks_def)
    from dfsEdges_total [OF hm this] obtain t' where
      "dfsEdges (mark t s) (edgesOut (sts t ! s)) = Inr t'" "sameButMarks (mark t s) t'" by blast
    then show ?thesis using sameButMarks_trans [OF that(2) sameButMarks_trans [OF sm]] by blast
  qed
qed

text \<open>
  The edges of an automaton join states of the automaton on symbols of its alphabet.
\<close>

definition edgesOK :: "world \<Rightarrow> automaton \<Rightarrow> bool" where
  "edgesOK w a =
     list_all (\<lambda>e. e < length (eds w) \<and> source (eds w ! e) \<in> set (states a)
                   \<and> sink (eds w ! e) \<in> set (states a) \<and> symbol (eds w ! e) \<in> set (alphabet a))
       (edges a)"

lemma reverse_total:
  assumes h: "heapOK w" and sv: "\<forall>s \<in> set (states a). s < length (sts w)" and eo: "edgesOK w a"
  shows "\<exists>w1 aRev. reverse w a = Inr (w1, aRev) \<and> builtOK w1 aRev \<and> ext w w1
           \<and> (\<lambda>s. name (sts w ! s)) ` set (states a) \<subseteq> dom (map_of (stateNameMap aRev))"
proof -
  let ?ar = "newAutomaton (''reverse of '' @ aname a) (alphabet a)"
  let ?N = "(\<lambda>s. name (sts w ! s)) ` set (states a)"
  have b0: "builtOK w ?ar" by (rule builtOK_newAutomaton [OF h])
  obtain w' ar' where f1: "fold (copyState name final start tag) (states a) (w, ?ar) = (w', ar')"
    and b1: "builtOK w' ar'" and e1: "ext w w'"
    and d1: "dom (map_of (stateNameMap ar')) = dom (map_of (stateNameMap ?ar)) \<union> ?N"
    and dm1: "deltaMap ar' = deltaMap ?ar"
    using copyStates_fold [OF b0 sv, of final start tag] by blast
  have al1: "set (alphabet a) \<subseteq> dom (map_of (deltaMap ar'))"
    by (simp add: dm1 newAutomaton_def dom_newDeltaMap)
  define P where "P wa \<longleftrightarrow> builtOK (fst wa) (snd wa) \<and> ext w (fst wa)
                    \<and> ?N \<subseteq> dom (map_of (stateNameMap (snd wa)))
                    \<and> set (alphabet a) \<subseteq> dom (map_of (deltaMap (snd wa)))" for wa
  have "\<exists>s'. foldE (copyEdge sinkName sourceName) (edges a) (w', ar') = Inr s' \<and> P s'"
  proof (rule foldE_total)
    show "P (w', ar')" using b1 e1 d1 al1 by (simp add: P_def)
    show "\<exists>t'. copyEdge sinkName sourceName e t = Inr t' \<and> P t'" if e: "e \<in> set (edges a)" and p: "P t" for e t
    proof -
      obtain wc arc where t: "t = (wc, arc)" by (cases t) auto
      have bc: "builtOK wc arc" and ec: "ext w wc" and nc: "?N \<subseteq> dom (map_of (stateNameMap arc))"
        and ac: "set (alphabet a) \<subseteq> dom (map_of (deltaMap arc))"
        using p t by (simp_all add: P_def)
      have ev: "e < length (eds w)" "source (eds w ! e) \<in> set (states a)"
        "sink (eds w ! e) \<in> set (states a)" "symbol (eds w ! e) \<in> set (alphabet a)"
        using eo e by (auto simp: edgesOK_def list_all_iff)
      have ed: "eds wc ! e = eds w ! e" using ec ev(1) by (simp add: ext_def)
      have nm: "name (sts wc ! s) = name (sts w ! s)" if "s \<in> set (states a)" for s
        using ec sv that by (simp add: ext_def)
      have f: "sinkName wc (eds wc ! e) \<in> dom (map_of (stateNameMap arc))"
        using nc ev(3) nm [OF ev(3)] by (auto simp: sinkName_def ed)
      have g: "sourceName wc (eds wc ! e) \<in> dom (map_of (stateNameMap arc))"
        using nc ev(2) nm [OF ev(2)] by (auto simp: sourceName_def ed)
      have c: "symbol (eds wc ! e) \<in> dom (map_of (deltaMap arc))" using ac ev(4) ed by auto
      obtain w2 ar2 where "copyEdge sinkName sourceName e (wc, arc) = Inr (w2, ar2)"
        "builtOK w2 ar2" "ext wc w2" "stateNameMap ar2 = stateNameMap arc"
        "dom (map_of (deltaMap arc)) \<subseteq> dom (map_of (deltaMap ar2))"
        using copyEdge_step [where fromName = sinkName and toName = sourceName, OF bc f g c] by blast
      then show ?thesis using t nc ac ext_trans [OF ec] by (auto simp: P_def)
    qed
  qed
  then obtain w1 aRev where "foldE (copyEdge sinkName sourceName) (edges a) (w', ar') = Inr (w1, aRev)"
    and "P (w1, aRev)" by auto
  then show ?thesis using f1 by (auto simp: reverse_def Let_def P_def)
qed


lemma reduce_total:
  assumes h: "heapOK w" and sv: "\<forall>s \<in> set (states a). s < length (sts w)" and eo: "edgesOK w a"
  shows "\<exists>w' ar. reduce w a = Inr (w', ar) \<and> builtOK w' ar"
proof (cases "length (states a) = 0 \<or> length (getStartStates w a) = 0 \<or> length (getFinalStates w a) = 0")
  case True
  then have "reduce w a = Inr (w, newAutomaton (''reduced of '' @ aname a) (alphabet a))"
    by (simp add: reduce_def Let_def)
  then show ?thesis using builtOK_newAutomaton [OF h] by simp
next
  case False
  let ?ar = "newAutomaton (''reduced of '' @ aname a) (alphabet a)"
  obtain w1 aRev where r1: "reverse w a = Inr (w1, aRev)" and b1: "builtOK w1 aRev" and e1: "ext w w1"
    and n1: "(\<lambda>s. name (sts w ! s)) ` set (states a) \<subseteq> dom (map_of (stateNameMap aRev))"
    using reverse_total [OF h sv eo] by blast
  have h1: "heapOK w1" using b1 by (simp add: builtOK_def)
  have sv1: "\<forall>s \<in> set (getStartStates w1 a). s < length (sts w1)"
    using sv e1 by (auto simp: getStartStates_def ext_def)
  obtain w2 where r2: "dfs w1 (getStartStates w1 a) = Inr w2" and m2: "sameButMarks w1 w2"
    using dfs_total [OF h1 sv1] by blast
  have b2: "builtOK w2 aRev" by (rule sameButMarks_builtOK [OF b1 m2])
  have h2: "heapOK w2" using b2 by (simp add: builtOK_def)
  have sv2: "\<forall>s \<in> set (getStartStates w2 aRev). s < length (sts w2)"
    using b2 by (auto simp: getStartStates_def builtOK_def)
  obtain w3 where r3: "dfs w2 (getStartStates w2 aRev) = Inr w3" and m3: "sameButMarks w2 w3"
    using dfs_total [OF h2 sv2] by blast
  have b3: "builtOK w3 aRev" by (rule sameButMarks_builtOK [OF b2 m3])
  have h3: "heapOK w3" using b3 by (simp add: builtOK_def)
  have len3: "length (sts w) \<le> length (sts w3)" "length (eds w) \<le> length (eds w3)"
    using e1 m2 m3 by (simp_all add: ext_def sameButMarks_def)
  have nm3: "name (sts w3 ! s) = name (sts w ! s)" if "s < length (sts w)" for s
    using e1 m2 m3 that by (simp add: ext_def sameButMarks_def)
  have ed3: "eds w3 ! e = eds w ! e" if "e < length (eds w)" for e
    using e1 m2 m3 that by (simp add: ext_def sameButMarks_def)
  have sv3: "\<forall>s \<in> set (states a). s < length (sts w3)" using sv len3 by auto
  have rv3: "\<exists>r. map_of (stateNameMap aRev) (name (sts w3 ! s)) = Some r \<and> r < length (sts w3)"
    if "s \<in> set (states a)" for s
  proof -
    have "name (sts w3 ! s) \<in> dom (map_of (stateNameMap aRev))"
      using n1 that nm3 sv by auto
    then show ?thesis using b3 by (auto simp: builtOK_def)
  qed
  define keep where "keep s \<longleftrightarrow> marked (sts w3 ! s)
      \<and> (\<exists>r. map_of (stateNameMap aRev) (name (sts w3 ! s)) = Some r \<and> marked (sts w3 ! r))" for s
  have mbn: "markedByName wc aRev (name (sts wc ! s))
               = Inr (\<exists>r. map_of (stateNameMap aRev) (name (sts w3 ! s)) = Some r \<and> marked (sts w3 ! r))"
    and mk: "marked (sts wc ! s) = marked (sts w3 ! s)" and nmc: "name (sts wc ! s) = name (sts w3 ! s)"
    if sa: "s \<in> set (states a)" and ex: "ext w3 wc" for s wc
  proof -
    have s3: "s < length (sts w3)" using sv3 sa by simp
    show mk: "marked (sts wc ! s) = marked (sts w3 ! s)" using ex s3 by (simp add: ext_def)
    show nmc: "name (sts wc ! s) = name (sts w3 ! s)" using ex s3 by (simp add: ext_def)
    obtain r where r: "map_of (stateNameMap aRev) (name (sts w3 ! s)) = Some r" "r < length (sts w3)"
      using rv3 [OF sa] by blast
    have "marked (sts wc ! r) = marked (sts w3 ! r)" using ex r(2) by (simp add: ext_def)
    then show "markedByName wc aRev (name (sts wc ! s))
               = Inr (\<exists>r. map_of (stateNameMap aRev) (name (sts w3 ! s)) = Some r \<and> marked (sts w3 ! r))"
      using r(1) by (simp add: markedByName_def getStateByName_def nmc)
  qed
  define P where "P B wa \<longleftrightarrow> builtOK (fst wa) (snd wa) \<and> ext w3 (fst wa)
                    \<and> set (alphabet a) \<subseteq> dom (map_of (deltaMap (snd wa)))
                    \<and> (\<forall>s \<in> B. keep s \<longrightarrow> name (sts w3 ! s) \<in> dom (map_of (stateNameMap (snd wa))))"
    for B wa
  have "\<exists>s'. foldE (reduceState aRev) (states a) (w3, ?ar) = Inr s' \<and> P ({} \<union> set (states a)) s'"
  proof (rule foldE_total_set)
    show "P {} (w3, ?ar)"
      using builtOK_newAutomaton [OF h3] by (simp add: P_def ext_refl) (simp add: newAutomaton_def dom_newDeltaMap)
    show "\<exists>t'. reduceState aRev s t = Inr t' \<and> P (insert s B) t'"
      if s: "s \<in> set (states a)" and p: "P B t" for s B t
    proof -
      obtain wc arc where t: "t = (wc, arc)" by (cases t) auto
      have bc: "builtOK wc arc" and ec: "ext w3 wc"
        and ac: "set (alphabet a) \<subseteq> dom (map_of (deltaMap arc))"
        and kc: "\<forall>s \<in> B. keep s \<longrightarrow> name (sts w3 ! s) \<in> dom (map_of (stateNameMap arc))"
        using p t by (simp_all add: P_def)
      show ?thesis
      proof (cases "keep s")
        case True
        obtain w' ar' where c: "copyState name start final tag s (wc, arc) = (w', ar')"
          and b': "builtOK w' ar'" and e': "ext wc w'"
          and d': "dom (map_of (stateNameMap ar')) = insert (name (sts wc ! s)) (dom (map_of (stateNameMap arc)))"
          and dm': "deltaMap ar' = deltaMap arc"
          using copyState_step [OF bc, of start final tag s] by blast
        have "reduceState aRev s t = Inr (w', ar')"
          using True c mbn [OF s ec] mk [OF s ec] by (simp add: reduceState_def t keep_def)
        moreover have "P (insert s B) (w', ar')"
          using b' ext_trans [OF ec e'] ac kc d' dm' nmc [OF s ec] by (auto simp: P_def)
        ultimately show ?thesis by blast
      next
        case False
        have "reduceState aRev s t = Inr (wc, arc)"
          using False mbn [OF s ec] mk [OF s ec] by (auto simp: reduceState_def t keep_def)
        moreover have "P (insert s B) (wc, arc)"
          using bc ec ac kc False by (auto simp: P_def)
        ultimately show ?thesis by blast
      qed
    qed
  qed
  then obtain w4 ar4 where r4: "foldE (reduceState aRev) (states a) (w3, ?ar) = Inr (w4, ar4)"
    and p4: "P (set (states a)) (w4, ar4)" by auto
  define Q where "Q wa \<longleftrightarrow> P (set (states a)) wa" for wa
  have "\<exists>s'. foldE (reduceEdge aRev) (edges a) (w4, ar4) = Inr s' \<and> Q s'"
  proof (rule foldE_total)
    show "Q (w4, ar4)" using p4 by (simp add: Q_def)
    show "\<exists>t'. reduceEdge aRev e t = Inr t' \<and> Q t'" if e: "e \<in> set (edges a)" and q: "Q t" for e t
    proof -
      obtain wc arc where t: "t = (wc, arc)" by (cases t) auto
      have bc: "builtOK wc arc" and ec: "ext w3 wc"
        and ac: "set (alphabet a) \<subseteq> dom (map_of (deltaMap arc))"
        and kc: "\<forall>s \<in> set (states a). keep s \<longrightarrow> name (sts w3 ! s) \<in> dom (map_of (stateNameMap arc))"
        using q t by (simp_all add: Q_def P_def)
      have ev: "e < length (eds w)" "source (eds w ! e) \<in> set (states a)"
        "sink (eds w ! e) \<in> set (states a)" "symbol (eds w ! e) \<in> set (alphabet a)"
        using eo e by (auto simp: edgesOK_def list_all_iff)
      have "e < length (eds w3)" using ev(1) len3 by simp
      then have ed: "eds wc ! e = eds w ! e" using ec ed3 [OF ev(1)] by (simp add: ext_def)
      let ?f = "source (eds w ! e)" and ?g = "sink (eds w ! e)"
      show ?thesis
      proof (cases "keep ?f \<and> keep ?g")
        case True
        have f: "sourceName wc (eds wc ! e) \<in> dom (map_of (stateNameMap arc))"
          using kc ev(2) True nmc [OF ev(2) ec] by (simp add: sourceName_def ed)
        have g: "sinkName wc (eds wc ! e) \<in> dom (map_of (stateNameMap arc))"
          using kc ev(3) True nmc [OF ev(3) ec] by (simp add: sinkName_def ed)
        have c: "symbol (eds wc ! e) \<in> dom (map_of (deltaMap arc))" using ac ev(4) ed by auto
        obtain w' ar' where ce: "copyEdge sourceName sinkName e (wc, arc) = Inr (w', ar')"
          and b': "builtOK w' ar'" and e': "ext wc w'" and s': "stateNameMap ar' = stateNameMap arc"
          and d': "dom (map_of (deltaMap arc)) \<subseteq> dom (map_of (deltaMap ar'))"
          using copyEdge_step [where fromName = sourceName and toName = sinkName, OF bc f g c] by blast
        have "reduceEdge aRev e t = Inr (w', ar')"
          using True ce mbn [OF ev(2) ec] mbn [OF ev(3) ec] mk [OF ev(2) ec] mk [OF ev(3) ec]
          by (simp add: reduceEdge_def t keep_def ed sourceName_def sinkName_def)
        moreover have "Q (w', ar')"
          using b' ext_trans [OF ec e'] ac kc s' d' by (auto simp: Q_def P_def)
        ultimately show ?thesis by blast
      next
        case False
        have "reduceEdge aRev e t = Inr (wc, arc)"
          using False mbn [OF ev(2) ec] mbn [OF ev(3) ec] mk [OF ev(2) ec] mk [OF ev(3) ec]
          by (auto simp: reduceEdge_def t keep_def ed sourceName_def sinkName_def)
        then show ?thesis using q t by simp
      qed
    qed
  qed
  then obtain w5 ar5 where r5: "foldE (reduceEdge aRev) (edges a) (w4, ar4) = Inr (w5, ar5)"
    and q5: "Q (w5, ar5)" by auto
  have "reduce w a = Inr (w5, ar5)"
    using False r1 r2 r3 r4 r5 by (simp add: reduce_def Let_def)
  then show ?thesis using q5 by (simp add: Q_def P_def)
qed

lemma renameStates_shape:
  "length (sts (fst (renameStates w a))) = length (sts w)"
  "deltaMap (snd (renameStates w a)) = deltaMap a"
  "states (snd (renameStates w a)) = states a"
proof -
  have "length (sts (fst (fold (\<lambda>(s, i) (w, a). renameState w a s (String_of i)) xs (w, a)))) = length (sts w)
        \<and> deltaMap (snd (fold (\<lambda>(s, i) (w, a). renameState w a s (String_of i)) xs (w, a))) = deltaMap a
        \<and> states (snd (fold (\<lambda>(s, i) (w, a). renameState w a s (String_of i)) xs (w, a))) = states a"
    for xs
    by (induction xs arbitrary: w a) (auto simp: renameState_def)
  then show "length (sts (fst (renameStates w a))) = length (sts w)"
    "deltaMap (snd (renameStates w a)) = deltaMap a"
    "states (snd (renameStates w a)) = states a"
    by (simp_all add: renameStates_def)
qed


text \<open>
  A well-formed automaton: every reference of the store and of the automaton points to a
  constructed object, and every edge of the automaton joins two of its states on a symbol
  of its alphabet.
\<close>

definition wellFormed :: "world \<Rightarrow> automaton \<Rightarrow> bool" where
  "wellFormed w a = (heapOK w \<and> statesOK w a \<and> edgesOK w a \<and> targetsOK w a)"

lemma length_fold_set_add: "length (fold set_add xs acc) \<le> length xs + length acc"
proof (induction xs arbitrary: acc)
  case Nil
  then show ?case by simp
next
  case (Cons x xs)
  have "length (fold set_add xs (set_add x acc)) \<le> length xs + length (set_add x acc)"
    by (rule Cons.IH)
  also have "\<dots> \<le> length xs + Suc (length acc)" by (simp add: set_add_def)
  finally show ?case by simp
qed

lemma isDeterministic_delta:
  assumes "isDeterministic w a"
  shows "length (getStartStates w a) = 1" and "length (delta a s c) \<le> 1"
proof -
  show "length (getStartStates w a) = 1"
    using assms by (simp add: isDeterministic_def split: if_splits)
  have all: "length ts \<le> 1" if "(c', dm) \<in> set (deltaMap a)" "(q, ts) \<in> set dm" for c' dm q ts
  proof -
    have "list_all (\<lambda>deltaMapSymbol. \<not> list_ex (\<lambda>s. length s > 1) (map snd deltaMapSymbol))
             (map snd (deltaMap a))"
      using assms by (simp add: isDeterministic_def split: if_splits)
    then have "\<not> list_ex (\<lambda>s. length s > 1) (map snd dm)"
      using that(1) by (force simp: list_all_iff)
    then show ?thesis using that(2) by (force simp: list_ex_iff)
  qed
  show "length (delta a s c) \<le> 1"
  proof (cases "map_of (deltaMap a) c")
    case None
    then show ?thesis by (simp add: delta_def)
  next
    case (Some dm)
    show ?thesis
    proof (cases "map_of dm s")
      case None
      then show ?thesis using Some by (simp add: delta_def)
    next
      case (Some ts)
      have "length ts \<le> 1"
        using all [OF map_of_SomeD [OF \<open>map_of (deltaMap a) c = Some dm\<close>] map_of_SomeD [OF Some]] .
      moreover have "length (fold set_add ts []) \<le> length ts"
        using length_fold_set_add [of ts "[]"] by simp
      ultimately show ?thesis
        using Some \<open>map_of (deltaMap a) c = Some dm\<close> by (simp add: delta_def)
    qed
  qed
qed

section \<open>Claims\<close>




text \<open>
  C1 (the code breaks the claim). The claim: for every automaton \<open>a\<close> and every word
  \<open>w\<close>, \<open>makeDeterministic(a).accepts(w) = a.accepts(w)\<close>. \<open>makeDeterministic\<close> starts
  with \<open>reduce\<close>, whose depth-first search skips every state that is already marked
  and never clears a mark. On the automaton \<open>extendedAfterReduce\<close>, whose states \<open>0\<close>
  and \<open>1\<close> carry the marks of an earlier \<open>reduce\<close>, the search stops at state \<open>1\<close>,
  state \<open>2\<close> is dropped, and the result rejects the word \<open>ab\<close> that the automaton
  accepts.
\<close>

theorem makeDeterministic_loses_word:
  "(case extendedAfterReduce of
      Inr (w, a) \<Rightarrow>
        (case makeDeterministic w a True of
           Some (Inr (w', d)) \<Rightarrow> accepts w a ''ab'' \<and> \<not> accepts w' d ''ab''
         | _ \<Rightarrow> False)
    | Inl _ \<Rightarrow> False)"
  by code_simp

text \<open>
  C2 (the code breaks the claim). The claim: for every automaton \<open>a\<close>,
  \<open>a.minimize('Hopcroft').equivalent(a.minimize('Brzozowski'))\<close> is true.
  \<open>minimizeHopcroft\<close> starts with \<open>this.reduce()\<close> on the automaton itself, while
  \<open>minimizeBrzozowski\<close> starts with \<open>reverse()\<close>, a copy with fresh states. On
  \<open>extendedAfterRename\<close>, whose states \<open>0\<close> and \<open>1\<close> carry the marks of an earlier
  \<open>renameStatesDFS\<close>, Hopcroft's result accepts nothing, Brzozowski's accepts \<open>aa\<close>,
  and \<open>equivalent\<close> returns false.
\<close>

theorem hopcroft_brzozowski_differ:
  "(case extendedAfterRename of
      Inr (w, a) \<Rightarrow>
        (case minimize w a ''Hopcroft'' of
           Some (Inr (w1, h)) \<Rightarrow>
             (case minimize w1 a ''Brzozowski'' of
                Some (Inr (w2, b)) \<Rightarrow>
                  (case equivalent w2 h b of
                     Some (Inr (w3, eq)) \<Rightarrow> \<not> eq \<and> accepts w2 b ''aa'' \<and> \<not> accepts w2 h ''aa''
                   | _ \<Rightarrow> False)
              | _ \<Rightarrow> False)
         | _ \<Rightarrow> False)
    | Inl _ \<Rightarrow> False)"
  by code_simp

text \<open>
  C3 (the code breaks the claim). The claim: for automata \<open>a\<close> and \<open>b\<close> over the same
  alphabet, \<open>a.union(b).accepts(w) = a.accepts(w) \<or> b.accepts(w)\<close>. \<open>union\<close> names the
  copies \<open>a.name + ':' + s.name\<close> and adds them with \<open>addState\<close>, which returns the
  existing state for a name that is taken. For two automata of the same name (here the
  default name \<open>A\<close>), the state \<open>0\<close> of the second is merged into the copy of the state
  \<open>0\<close> of the first and its \<open>final\<close> flag is lost: the second automaton accepts the
  empty word, the union does not.
\<close>

theorem union_same_name_loses_word:
  "(case union (fst sameNameSecond) (snd sameNameFirst) (snd sameNameSecond) of
      Inr (w', u) \<Rightarrow>
        accepts (fst sameNameSecond) (snd sameNameSecond) [] \<and> \<not> accepts w' u []
        \<and> length (states u) = 1
    | Inl _ \<Rightarrow> False)"
  by code_simp

text \<open>
  C7 (the code breaks the claim). The claim: for a generalized automaton made by
  \<open>copyOf\<close>, \<open>equivalentRE\<close> terminates, every round of its loop takes a state away, and
  at the end no edge is left or exactly one, whose label is returned. The loop is the
  total function \<open>elimLoop\<close>, and \<open>eliminate_states\<close> above is the decrease. The last
  part fails: \<open>copyOf\<close> adds the copy of a state named \<open>start\<close> as \<open>startx\<close>, but adds
  the edges by the original names, so that the loop of \<open>loopNamedStart\<close> lands on the
  boundary state \<open>start\<close>. Two edges are left at the end, and the label \<open>a\<close> of the
  first is returned, for an automaton that accepts \<open>aa\<close>.
\<close>

theorem equivalentRE_two_edges_left:
  "(case loopNamedStart of
      Inr (w, aut) \<Rightarrow>
        (case copyOf w aut of
           Inr (w1, ga) \<Rightarrow>
             (case equivalentRE w1 ga of
                Inr (w2, ga', r) \<Rightarrow>
                  length (states ga') = 2 \<and> length (edges ga') = 2 \<and> r = Some (RWord ''a'')
                  \<and> accepts w aut ''aa''
              | Inl _ \<Rightarrow> False)
         | Inl _ \<Rightarrow> False)
    | Inl _ \<Rightarrow> False)"
  by code_simp




text \<open>
  C9. When \<open>renameStatesDFS\<close> has returned and the renamed automaton is not deterministic,
  \<open>signatureDFS\<close> returns \<open>undefined\<close> (here \<open>None\<close>), together with the automaton as the
  renaming left it: it neither throws nor returns a string. A string is returned only with
  a renamed automaton that is deterministic. The renaming changes neither the start flags
  nor \<open>deltaMap\<close>, so the renamed automaton is deterministic exactly when the automaton
  was.
\<close>

theorem signatureDFS_undefined_when_not_deterministic:
  "(renameStatesDFS w a = Inr (w', a') \<longrightarrow>
      isDeterministic w' a' = isDeterministic w a
      \<and> (\<not> isDeterministic w' a' \<longrightarrow> signatureDFS w a = Inr (w', a', None)))
   \<and> (signatureDFS w a = Inr (w', a', Some sig) \<longrightarrow>
        renameStatesDFS w a = Inr (w', a') \<and> isDeterministic w' a')"
proof (intro conjI impI)
  assume r: "renameStatesDFS w a = Inr (w', a')"
  show "isDeterministic w' a' = isDeterministic w a"
    by (rule renameStatesDFS_isDeterministic [OF r])
  assume "\<not> isDeterministic w' a'"
  then show "signatureDFS w a = Inr (w', a', None)" using r by (simp add: signatureDFS_def)
next
  assume s: "signatureDFS w a = Inr (w', a', Some sig)"
  then show "renameStatesDFS w a = Inr (w', a')" "isDeterministic w' a'"
    by (auto simp: signatureDFS_def Let_def split: sum.splits if_splits)
qed

theorem signatureDFS_undefined_when_not_deterministic_witness:
  "(case renameStatesDFS (fst twoStartStates) (snd twoStartStates) of
      Inl err \<Rightarrow> False
    | Inr (w', a') \<Rightarrow>
        \<not> isDeterministic w' a'
        \<and> signatureDFS (fst twoStartStates) (snd twoStartStates) = Inr (w', a', None))
   \<and> (case signatureDFS (fst sameNameFirst) (snd sameNameFirst) of
        Inr (w', a', Some sig) \<Rightarrow>
          renameStatesDFS (fst sameNameFirst) (snd sameNameFirst) = Inr (w', a')
          \<and> isDeterministic w' a'
      | _ \<Rightarrow> False)"
proof (rule conjI)
  have h: "case renameStatesDFS (fst twoStartStates) (snd twoStartStates) of
      Inl err \<Rightarrow> False | Inr (w', a') \<Rightarrow> \<not> isDeterministic w' a'"
    by code_simp
  show "case renameStatesDFS (fst twoStartStates) (snd twoStartStates) of
      Inl err \<Rightarrow> False
    | Inr (w', a') \<Rightarrow>
        \<not> isDeterministic w' a'
        \<and> signatureDFS (fst twoStartStates) (snd twoStartStates) = Inr (w', a', None)"
  proof (cases "renameStatesDFS (fst twoStartStates) (snd twoStartStates)")
    case (Inl err)
    from h have False unfolding Inl by simp
    then show ?thesis ..
  next
    case (Inr wa)
    obtain w' a' where wa: "wa = (w', a')" by (cases wa) auto
    from h have nd: "\<not> isDeterministic w' a'" unfolding Inr wa by simp
    have r: "renameStatesDFS (fst twoStartStates) (snd twoStartStates) = Inr (w', a')"
      using Inr wa by simp
    from signatureDFS_undefined_when_not_deterministic
           [of "fst twoStartStates" "snd twoStartStates" w' a'] r nd
    have "signatureDFS (fst twoStartStates) (snd twoStartStates) = Inr (w', a', None)" by blast
    then show ?thesis unfolding Inr wa using nd by simp
  qed
next
  have h: "case signatureDFS (fst sameNameFirst) (snd sameNameFirst) of
        Inr (w', a', Some sig) \<Rightarrow> True | _ \<Rightarrow> False"
    by code_simp
  then obtain w' a' sig where
    s: "signatureDFS (fst sameNameFirst) (snd sameNameFirst) = Inr (w', a', Some sig)"
    by (auto split: sum.splits option.splits)
  from signatureDFS_undefined_when_not_deterministic
         [of "fst sameNameFirst" "snd sameNameFirst" w' a' sig] s
  have "renameStatesDFS (fst sameNameFirst) (snd sameNameFirst) = Inr (w', a')
        \<and> isDeterministic w' a'" by blast
  then show "case signatureDFS (fst sameNameFirst) (snd sameNameFirst) of
        Inr (w', a', Some sig) \<Rightarrow>
          renameStatesDFS (fst sameNameFirst) (snd sameNameFirst) = Inr (w', a')
          \<and> isDeterministic w' a'
      | _ \<Rightarrow> False"
    unfolding s by simp
qed

text \<open>
  C6 (corrected). The claim: after any sequence of \<open>addState\<close>, \<open>addEdge\<close>,
  \<open>renameState\<close>, \<open>deleteEdge\<close> and \<open>deleteState\<close>, \<open>stateNameMap\<close> maps the name of
  every state to the state and the names are pairwise distinct. \<open>addState('')\<close> makes
  a state named \<open>empty\<close> and registers it under the empty name, so its name is not a
  key of the map; a following \<open>addState('empty')\<close> makes a second state named
  \<open>empty\<close>. \<open>renameState\<close> to the name of another state overwrites that state's
  entry.
\<close>

theorem names_invariant_counterexample:
  "(case foldE perform [AddState [] True False [] False] (emptyWorld, newAutomaton ''A'' ''ab'') of
      Inr (w, a) \<Rightarrow>
        \<not> namesInvariant w a \<and> map (\<lambda>s. name (sts w ! s)) (states a) = [''empty'']
        \<and> getStateByName a ''empty'' = None
    | Inl _ \<Rightarrow> False)
   \<and> (case foldE perform [AddState [] True False [] False, AddState ''empty'' False False [] False]
              (emptyWorld, newAutomaton ''A'' ''ab'') of
      Inr (w, a) \<Rightarrow> map (\<lambda>s. name (sts w ! s)) (states a) = [''empty'', ''empty'']
    | Inl _ \<Rightarrow> False)
   \<and> (case foldE perform [AddState ''p'' True False [] False, AddState ''q'' False False [] False,
                          RenameState 0 ''q'']
              (emptyWorld, newAutomaton ''A'' ''ab'') of
      Inr (w, a) \<Rightarrow> \<not> namesInvariant w a \<and> map (\<lambda>s. name (sts w ! s)) (states a) = [''q'', ''q'']
    | Inl _ \<Rightarrow> False)"
  by code_simp

text \<open>
  C6 as amended: starting from a new automaton, after any sequence of calls that do not
  throw, in which every \<open>addState\<close> has a name that is not empty, every
  \<open>renameState\<close> renames a state of the automaton to a name that no other state of it
  has, and every \<open>deleteState\<close> deletes a state of the automaton, \<open>stateNameMap\<close> maps
  the name of every state of \<open>states\<close> to that state and the names of the states are
  pairwise distinct.
\<close>

theorem names_invariant_kept:
  assumes "admissibleAll opers (w, newAutomaton nm symbols)"
    and "foldE perform opers (w, newAutomaton nm symbols) = Inr (w', a')"
  shows "namesInvariant w' a'"
  using namesInv_performAll [OF _ assms] namesInv_new by (simp add: namesInv_def)

theorem names_invariant_kept_witness:
  "admissibleAll
     [AddState ''p'' True False [] False, AddState ''q'' False True [] False,
      AddState ''q'' False False [] True, AddEdge (ByName ''p'') (ByName ''q'') CHR ''a'',
      RenameState 1 ''r'', DeleteEdge 0, DeleteState (ByName ''p'')]
     (emptyWorld, newAutomaton ''A'' ''ab'')
   \<and> (\<exists>w' a'.
         foldE perform
           [AddState ''p'' True False [] False, AddState ''q'' False True [] False,
            AddState ''q'' False False [] True, AddEdge (ByName ''p'') (ByName ''q'') CHR ''a'',
            RenameState 1 ''r'', DeleteEdge 0, DeleteState (ByName ''p'')]
           (emptyWorld, newAutomaton ''A'' ''ab'') = Inr (w', a')
         \<and> length (states a') = 2 \<and> namesInvariant w' a')"
proof -
  let ?opers = "[AddState ''p'' True False [] False, AddState ''q'' False True [] False,
      AddState ''q'' False False [] True, AddEdge (ByName ''p'') (ByName ''q'') CHR ''a'',
      RenameState 1 ''r'', DeleteEdge 0, DeleteState (ByName ''p'')]"
  have h1: "admissibleAll ?opers (emptyWorld, newAutomaton ''A'' ''ab'')"
    by code_simp
  have h2: "\<not> isl (foldE perform ?opers (emptyWorld, newAutomaton ''A'' ''ab''))"
    by code_simp
  have h3: "length (states (snd (projr (foldE perform ?opers (emptyWorld, newAutomaton ''A'' ''ab''))))) = 2"
    by code_simp
  obtain w' a' where r: "foldE perform ?opers (emptyWorld, newAutomaton ''A'' ''ab'') = Inr (w', a')"
    using h2 by (metis sum.collapse(2) surj_pair)
  have "namesInvariant w' a'"
    by (rule names_invariant_kept [OF h1 r])
  moreover have "length (states a') = 2" using h3 r by simp
  ultimately show ?thesis using h1 r by blast
qed

text \<open>
  Claim C8, as stated: \<open>constructFromSignature\<close> throws exactly when the signature has a wrong
  number of parts, an empty part, a transitions part of the wrong length, or malformed Base62
  digits. The code does not check the digits: \<open>fromBase62\<close> reads every character that is
  neither a digit nor an upper-case letter as a lower-case letter, so the entry \<open>~\<close> decodes to
  65, is not below the number of states, and is skipped; an entry that starts with \<open>-\<close> is
  skipped whatever follows. Both signatures below are accepted.
\<close>

theorem malformed_digit_counterexample:
  "\<not> throws (constructFromSignature emptyWorld ''~|0|a'')
   \<and> \<not> (CHR ''0'' \<le> CHR ''~'' \<and> CHR ''~'' \<le> CHR ''9'')
   \<and> \<not> (CHR ''A'' \<le> CHR ''~'' \<and> CHR ''~'' \<le> CHR ''Z'')
   \<and> \<not> (CHR ''a'' \<le> CHR ''~'' \<and> CHR ''~'' \<le> CHR ''z'')
   \<and> \<not> throws (constructFromSignature emptyWorld ''-~|00|a'')"
  by code_simp

text \<open>
  Claim C8, amended: \<open>constructFromSignature\<close> throws exactly when the signature does not have
  three parts, one part is empty, the transitions part does not have length
  digit width * number of states * number of symbols, or some entry of the transitions part
  that does not start with \<open>-\<close> decodes to a value below the number of states without being
  the name of a state (\<open>badEntry\<close>); on every other signature it returns an automaton.
\<close>

theorem constructFromSignature_throws_iff:
  "throws (constructFromSignature w signature) =
     (case split CHR ''|'' signature of
        [transitions, finals, symbols] \<Rightarrow>
          transitions = [] \<or> finals = [] \<or> symbols = []
          \<or> totalDigitsFor (length finals) * length finals * length symbols \<noteq> length transitions
          \<or> list_ex (\<lambda>i. list_ex (\<lambda>j.
                  badEntry transitions symbols (length finals) (totalDigitsFor (length finals)) i j)
                [0 ..< length symbols]) [0 ..< length finals]
      | _ \<Rightarrow> True)"
proof -
  have th: "throws r = (\<exists>e. r = Inl e)" for r :: "error + (world \<times> automaton)"
    by (cases r) (simp_all add: throws_def)
  have ex: "list_ex (\<lambda>i. list_ex (\<lambda>j. Q i j) [0 ..< m]) [0 ..< n] = (\<exists>i < n. \<exists>j < m. Q i j)"
    for Q :: "nat \<Rightarrow> nat \<Rightarrow> bool" and m n
    unfolding list_ex_iff by (simp add: Bex_def)
  show ?thesis
  proof (cases "\<exists>transitions finals symbols. split CHR ''|'' signature = [transitions, finals, symbols]")
    case True
    then obtain transitions finals symbols where
      sp: "split CHR ''|'' signature = [transitions, finals, symbols]" by blast
    show ?thesis
      using signatureRows_fail_iff [OF signatureStates_keysOK,
              where d = "totalDigitsFor (length finals)" and n = "length finals"
                and symbols = symbols and transitions = transitions]
      by (simp add: th ex constructFromSignature_def sp Let_def)
  next
    case False
    then have "constructFromSignature w signature = Inl (Error ''there must be exactly 3 parts'')"
      by (auto simp: constructFromSignature_def split: list.splits)
    moreover have "(case split CHR ''|'' signature of
        [transitions, finals, symbols] \<Rightarrow>
          transitions = [] \<or> finals = [] \<or> symbols = []
          \<or> totalDigitsFor (length finals) * length finals * length symbols \<noteq> length transitions
          \<or> list_ex (\<lambda>i. list_ex (\<lambda>j.
                  badEntry transitions symbols (length finals) (totalDigitsFor (length finals)) i j)
                [0 ..< length symbols]) [0 ..< length finals]
      | _ \<Rightarrow> True)"
      using False by (auto split: list.splits)
    ultimately show ?thesis by (simp add: throws_def)
  qed
qed

theorem constructFromSignature_throws_iff_witness:
  "throws (constructFromSignature emptyWorld ''/|0|a'')
   \<and> \<not> throws (constructFromSignature emptyWorld ''101210|001|ab'')
   \<and> throws (constructFromSignature emptyWorld ''10121|001|ab'')"
proof -
  have r1: "(case split CHR ''|'' ''/|0|a'' of
        [transitions, finals, symbols] \<Rightarrow>
          transitions = [] \<or> finals = [] \<or> symbols = []
          \<or> totalDigitsFor (length finals) * length finals * length symbols \<noteq> length transitions
          \<or> list_ex (\<lambda>i. list_ex (\<lambda>j.
                  badEntry transitions symbols (length finals) (totalDigitsFor (length finals)) i j)
                [0 ..< length symbols]) [0 ..< length finals]
      | _ \<Rightarrow> True)"
    by code_simp
  have r2: "\<not> (case split CHR ''|'' ''101210|001|ab'' of
        [transitions, finals, symbols] \<Rightarrow>
          transitions = [] \<or> finals = [] \<or> symbols = []
          \<or> totalDigitsFor (length finals) * length finals * length symbols \<noteq> length transitions
          \<or> list_ex (\<lambda>i. list_ex (\<lambda>j.
                  badEntry transitions symbols (length finals) (totalDigitsFor (length finals)) i j)
                [0 ..< length symbols]) [0 ..< length finals]
      | _ \<Rightarrow> True)"
    by code_simp
  have r3: "(case split CHR ''|'' ''10121|001|ab'' of
        [transitions, finals, symbols] \<Rightarrow>
          transitions = [] \<or> finals = [] \<or> symbols = []
          \<or> totalDigitsFor (length finals) * length finals * length symbols \<noteq> length transitions
          \<or> list_ex (\<lambda>i. list_ex (\<lambda>j.
                  badEntry transitions symbols (length finals) (totalDigitsFor (length finals)) i j)
                [0 ..< length symbols]) [0 ..< length finals]
      | _ \<Rightarrow> True)"
    by code_simp
  show ?thesis
    using r1 r2 r3
      constructFromSignature_throws_iff [of emptyWorld "''/|0|a''"]
      constructFromSignature_throws_iff [of emptyWorld "''101210|001|ab''"]
      constructFromSignature_throws_iff [of emptyWorld "''10121|001|ab''"]
    by blast
qed

text \<open>
  Claim C4, as stated: for every automaton \<open>a\<close>, \<open>makeDeterministic(a)\<close> returns a
  deterministic automaton. For an automaton without states \<open>makeDeterministic\<close> returns
  \<open>this.reduce()\<close>, an automaton without states: it has no start state and
  \<open>isDeterministic\<close> is false for it.
\<close>

theorem makeDeterministic_empty_counterexample:
  "makeDeterministic emptyWorld (newAutomaton ''A'' ''ab'') True
     = Some (Inr (emptyWorld, newAutomaton ''reduced of A'' ''ab''))
   \<and> \<not> isDeterministic emptyWorld (newAutomaton ''reduced of A'' ''ab'')
   \<and> getStartStates emptyWorld (newAutomaton ''reduced of A'' ''ab'') = []"
  by code_simp

text \<open>
  Claim C4, amended: for every well-formed automaton, with or without the renaming of the
  states, \<open>makeDeterministic\<close> terminates without an error, and the automaton it returns
  is deterministic exactly when the given automaton has a state; it then has exactly one
  start state and at most one successor for every state and symbol.
\<close>

theorem makeDeterministic_deterministic:
  assumes "wellFormed w a"
  shows "\<exists>w' d. makeDeterministic w a renameStatesFlag = Some (Inr (w', d))
           \<and> isDeterministic w' d = (\<not> isEmpty a)
           \<and> (\<not> isEmpty a \<longrightarrow>
                length (getStartStates w' d) = 1 \<and> (\<forall>s c. length (delta d s c) \<le> 1))"
proof (cases "isEmpty a")
  case True
  let ?ar = "newAutomaton (''reduced of '' @ aname a) (alphabet a)"
  have "makeDeterministic w a renameStatesFlag = Some (Inr (w, ?ar))"
    using True by (simp add: makeDeterministic_def reduce_def isEmpty_def Let_def)
  moreover have "\<not> isDeterministic w ?ar"
    by (simp add: isDeterministic_def getStartStates_def newAutomaton_def)
  ultimately show ?thesis using True by simp
next
  case False
  have h: "heapOK w" and sv: "\<forall>s \<in> set (states a). s < length (sts w)" and eo: "edgesOK w a"
    and t: "targetsOK w a"
    using assms by (simp_all add: wellFormed_def statesOK_def list_all_iff)
  have "\<exists>w2 nfa. (if renameStatesFlag
               then (case reduce w a of Inl err \<Rightarrow> Inl err | Inr (w1, ar) \<Rightarrow> Inr (renameStates w1 ar))
               else Inr (w, a)) = Inr (w2, nfa) \<and> targetsOK w2 nfa"
  proof (cases renameStatesFlag)
    case True
    obtain w1 ar where r: "reduce w a = Inr (w1, ar)" and b: "builtOK w1 ar"
      using reduce_total [OF h sv eo] by blast
    obtain w2 nfa where n: "renameStates w1 ar = (w2, nfa)" by (cases "renameStates w1 ar") auto
    have "targetsOK w2 nfa"
    proof (rule targetsOK_mono)
      show "targetsOK w1 ar" using b by (simp add: builtOK_def)
      show "length (sts w1) \<le> length (sts w2)" using renameStates_shape(1) [of w1 ar] n by simp
      show "deltaMap nfa = deltaMap ar" using renameStates_shape(2) [of w1 ar] n by simp
    qed
    then show ?thesis using True r n by simp
  next
    case False
    then show ?thesis using t by simp
  qed
  then obtain w2 nfa where pre: "(if renameStatesFlag
               then (case reduce w a of Inl err \<Rightarrow> Inl err | Inr (w1, ar) \<Rightarrow> Inr (renameStates w1 ar))
               else Inr (w, a)) = Inr (w2, nfa)" and t2: "targetsOK w2 nfa" by blast
  have "\<exists>w' d. makeDeterministic w a renameStatesFlag = Some (Inr (w', d)) \<and> isDeterministic w' d"
  proof (cases "isDeterministic w2 nfa")
    case True
    have "makeDeterministic w a renameStatesFlag = Some (Inr (w2, nfa))"
      using \<open>\<not> isEmpty a\<close> pre True unfolding makeDeterministic_def by simp
    then show ?thesis using True by blast
  next
    case False
    have "makeDeterministic w a renameStatesFlag = subsetConstruction w2 nfa"
      using \<open>\<not> isEmpty a\<close> pre False unfolding makeDeterministic_def by simp
    then show ?thesis using subsetConstruction_deterministic [OF t2] by simp
  qed
  then obtain w' d where "makeDeterministic w a renameStatesFlag = Some (Inr (w', d))"
    and "isDeterministic w' d" by blast
  then show ?thesis using False isDeterministic_delta [of w' d] by blast
qed

theorem makeDeterministic_deterministic_witness:
  "case endsWithAB of
     Inl err \<Rightarrow> False
   | Inr (w, a) \<Rightarrow>
       wellFormed w a \<and> \<not> isEmpty a \<and> \<not> isDeterministic w a
       \<and> (\<exists>w' d. makeDeterministic w a True = Some (Inr (w', d)) \<and> isDeterministic w' d)"
proof -
  have h: "case endsWithAB of
     Inl err \<Rightarrow> False
   | Inr (w, a) \<Rightarrow> wellFormed w a \<and> \<not> isEmpty a \<and> \<not> isDeterministic w a"
    by code_simp
  show ?thesis
  proof (cases endsWithAB)
    case (Inl err)
    from h have False unfolding Inl by simp
    then show ?thesis ..
  next
    case (Inr wa)
    obtain w a where wa: "wa = (w, a)" by (cases wa) auto
    from h have wf: "wellFormed w a" and ne: "\<not> isEmpty a" and nd: "\<not> isDeterministic w a"
      unfolding Inr wa by simp_all
    from makeDeterministic_deterministic [OF wf, of True] ne
    have "\<exists>w' d. makeDeterministic w a True = Some (Inr (w', d)) \<and> isDeterministic w' d"
      by auto
    then show ?thesis unfolding Inr wa using wf ne nd by simp
  qed
qed

end
